theory Spec2Isabelle
  imports Complex_Main "HOL-Library.Word"
begin

unbundle bit_operations_syntax

section \<open>Machine types, tuning constants and outcomes\<close>

type_synonym byte = "8 word"
type_synonym u16 = "16 word"
type_synonym u32 = "32 word"

text \<open>
  A C function of \<^verbatim>\<open>fse.c\<close> either returns a value, or returns its error code \<open>-1\<close>
  (\<open>ErrorCode\<close>), or leaves the defined behaviour of C: an access outside the array it was
  given (\<open>OutOfBounds\<close>) or an operation without a defined result, such as a division by
  zero or a bit scan of zero (\<open>Undefined\<close>). A loop that never ends is the value \<open>None\<close>
  of the functions that can contain one.
\<close>

datatype fse_error = ErrorCode | OutOfBounds | Undefined

definition FSE_MEMORY_USAGE :: int where
  "FSE_MEMORY_USAGE = 14"

definition FSE_MAX_NB_SYMBOLS :: int where
  "FSE_MAX_NB_SYMBOLS = 286"

definition FSE_MAX_NB_SYMBOLS_CHAR :: int where
  "FSE_MAX_NB_SYMBOLS_CHAR = (if FSE_MAX_NB_SYMBOLS > 256 then 256 else FSE_MAX_NB_SYMBOLS)"

definition FSE_MAX_TABLELOG :: int where
  "FSE_MAX_TABLELOG = FSE_MEMORY_USAGE - 2"

definition FSE_MIN_TABLELOG :: int where
  "FSE_MIN_TABLELOG = 5"

definition FSE_VIRTUAL_LOG :: int where
  "FSE_VIRTUAL_LOG = 30"

section \<open>Symbol counting: \<^verbatim>\<open>FSE_count\<close>\<close>

text \<open>\<^verbatim>\<open>Counting[*ip++]++\<close> on one of the four local arrays of 256 counters.\<close>

definition count_incr :: "u32 list \<Rightarrow> byte \<Rightarrow> u32 list" where
  "count_incr c b = c[unat b := c ! unat b + 1]"

text \<open>
  The unrolled loop \<^verbatim>\<open>while (ip < iend-3)\<close>: it runs while at least four bytes are
  left and gives the next four bytes to the four arrays in turn. It returns the arrays and
  the bytes it left.
\<close>

fun count_loop4 ::
  "u32 list \<times> u32 list \<times> u32 list \<times> u32 list \<Rightarrow> byte list \<Rightarrow>
   (u32 list \<times> u32 list \<times> u32 list \<times> u32 list) \<times> byte list" where
  "count_loop4 (c1, c2, c3, c4) (a # b # c # d # rest) =
     count_loop4 (count_incr c1 a, count_incr c2 b, count_incr c3 c, count_incr c4 d) rest"
| "count_loop4 cs rest = (cs, rest)"

text \<open>
  \<^verbatim>\<open>while (!count[maxNbSymbols-1]) maxNbSymbols--;\<close> The loop has no lower bound: when
  every entry below \<open>maxNbSymbols\<close> is zero it reads \<^verbatim>\<open>count[-1]\<close>.
\<close>

fun count_trim :: "u32 list \<Rightarrow> nat \<Rightarrow> fse_error + nat" where
  "count_trim cnt 0 = Inl OutOfBounds"
| "count_trim cnt (Suc n) = (if cnt ! n = 0 then count_trim cnt n else Inr (Suc n))"

text \<open>
  \<^verbatim>\<open>int FSE_count (unsigned int* count, const unsigned char* source, int sourceSize,
  int maxNbSymbols)\<close>. The source buffer is the list \<open>source\<close> and \<open>sourceSize\<close> its
  length. The result is the returned number of symbols and the entries
  \<^verbatim>\<open>count[0..maxNbSymbols)\<close> that the function stored.
\<close>

definition FSE_count :: "byte list \<Rightarrow> int \<Rightarrow> fse_error + (int \<times> u32 list)" where
  "FSE_count source maxNbSymbols =
     (if maxNbSymbols > FSE_MAX_NB_SYMBOLS_CHAR then Inl ErrorCode
      else let maxNbSymbols = (if maxNbSymbols = 0 then FSE_MAX_NB_SYMBOLS_CHAR else maxNbSymbols) in
      if length source = 0 then Inl ErrorCode
      else let zeros = replicate (nat FSE_MAX_NB_SYMBOLS_CHAR) (0 :: u32);
               ((Counting1, Counting2, Counting3, Counting4), rest) =
                  count_loop4 (zeros, zeros, zeros, zeros) source;
               Counting1 = foldl count_incr Counting1 rest;
               cnt = map (\<lambda>i. Counting1 ! i + Counting2 ! i + Counting3 ! i + Counting4 ! i)
                         [0 ..< nat maxNbSymbols]
           in case count_trim cnt (nat maxNbSymbols) of
                Inl e \<Rightarrow> Inl e
              | Inr n \<Rightarrow> Inr (int n, cnt))"

section \<open>Auxiliary notions used in the proofs about counting\<close>

text \<open>The sum of the four counters of symbol \<open>i\<close>, the shape of the four arrays, and the
  number of occurrences of symbol \<open>i\<close> in a buffer as a 32-bit value.\<close>

definition count_tot :: "u32 list \<times> u32 list \<times> u32 list \<times> u32 list \<Rightarrow> nat \<Rightarrow> u32" where
  "count_tot cs i = (case cs of (c1, c2, c3, c4) \<Rightarrow> c1 ! i + c2 ! i + c3 ! i + c4 ! i)"

definition count_wf :: "u32 list \<times> u32 list \<times> u32 list \<times> u32 list \<Rightarrow> bool" where
  "count_wf cs = (case cs of (c1, c2, c3, c4) \<Rightarrow> length c1 = 256 \<and> length c2 = 256 \<and> length c3 = 256 \<and> length c4 = 256)"

definition occ :: "byte list \<Rightarrow> nat \<Rightarrow> u32" where
  "occ xs i = of_nat (count_list xs (of_nat i))"

section \<open>Distribution normalization: \<^verbatim>\<open>FSE_normalizeCount\<close>\<close>

text \<open>
  \<^verbatim>\<open>FSE_highbit\<close>: the index of the highest set bit (\<^verbatim>\<open>31 - __builtin_clz (val)\<close>, or
  \<^verbatim>\<open>_BitScanReverse\<close>). Both intrinsics have no defined result for the value 0.
\<close>

fun highbit_nat :: "nat \<Rightarrow> nat" where
  "highbit_nat n = (if n < 2 then 0 else Suc (highbit_nat (n div 2)))"

declare highbit_nat.simps [simp del]

definition FSE_highbit :: "u32 \<Rightarrow> fse_error + int" where
  "FSE_highbit val = (if val = 0 then Inl Undefined else Inr (int (highbit_nat (unat val))))"

text \<open>
  The arrays \<^verbatim>\<open>normalizedCounter\<close> and \<^verbatim>\<open>count\<close> are two pointers, and the compressor
  passes the same array for both. A store is the list of the arrays in memory and an address
  is the position of an array in it; an access at an index outside the array is
  \<open>OutOfBounds\<close>.
\<close>

type_synonym store = "u32 list list"

definition load :: "store \<Rightarrow> nat \<Rightarrow> nat \<Rightarrow> fse_error + u32" where
  "load m p i =
     (if p < length m \<and> i < length (m ! p) then Inr (m ! p ! i) else Inl OutOfBounds)"

definition store_at :: "store \<Rightarrow> nat \<Rightarrow> nat \<Rightarrow> u32 \<Rightarrow> fse_error + store" where
  "store_at m p i v =
     (if p < length m \<and> i < length (m ! p) then Inr (m[p := (m ! p)[i := v]])
      else Inl OutOfBounds)"

text \<open>
  Values of type \<^verbatim>\<open>int\<close> are integers; where the C expression is computed on
  \<^verbatim>\<open>U32\<close> operands and stored in an \<^verbatim>\<open>int\<close>, the 32-bit result is read back as a
  two's complement value (\<open>sint\<close>).

  ``Ensure proper scale'':
  \<^verbatim>\<open>for (s=0; s<nbSymbols; s++) vTotal += count[s] = (count[s]+base) >> shift;\<close>
\<close>

fun normalize_scale_loop ::
  "nat \<Rightarrow> int \<Rightarrow> nat \<Rightarrow> nat list \<Rightarrow> store \<Rightarrow> int \<Rightarrow> fse_error + (store \<times> int)" where
  "normalize_scale_loop shift base count [] m vTotal = Inr (m, vTotal)"
| "normalize_scale_loop shift base count (s # ss) m vTotal =
     (case load m count s of
        Inl e \<Rightarrow> Inl e
      | Inr c \<Rightarrow>
          let v = drop_bit shift (c + word_of_int base)
          in (case store_at m count s v of
                Inl e \<Rightarrow> Inl e
              | Inr m' \<Rightarrow>
                  normalize_scale_loop shift base count ss m' (sint (word_of_int vTotal + v))))"

text \<open>
  \<^verbatim>\<open>do { minBase += add; add = (add * nbSymbols) >> tableLog; } while (add);\<close>
  on \<^verbatim>\<open>U32\<close> values. Nothing bounds the number of rounds.
\<close>

partial_function (option) normalize_minBase_loop :: "u32 \<Rightarrow> u32 \<Rightarrow> u32 \<Rightarrow> nat \<Rightarrow> u32 option" where
  "normalize_minBase_loop minBase add nbSymbols tableLog =
     (if drop_bit tableLog (add * nbSymbols) \<noteq> 0
      then normalize_minBase_loop (minBase + add) (drop_bit tableLog (add * nbSymbols)) nbSymbols tableLog
      else Some (minBase + add))"

declare normalize_minBase_loop.simps [code]

text \<open>
  \<^verbatim>\<open>for (s=0; s<nbSymbols; s++) if (count[s])
  { normalizedCounter[s] = count[s] + minBase; vTotal += minBase; }\<close>
\<close>

fun normalize_add_loop ::
  "u32 \<Rightarrow> nat \<Rightarrow> nat \<Rightarrow> nat list \<Rightarrow> store \<Rightarrow> int \<Rightarrow> fse_error + (store \<times> int)" where
  "normalize_add_loop minBase normalizedCounter count [] m vTotal = Inr (m, vTotal)"
| "normalize_add_loop minBase normalizedCounter count (s # ss) m vTotal =
     (case load m count s of
        Inl e \<Rightarrow> Inl e
      | Inr c \<Rightarrow>
          if c \<noteq> 0
          then (case store_at m normalizedCounter s (c + minBase) of
                  Inl e \<Rightarrow> Inl e
                | Inr m' \<Rightarrow>
                    normalize_add_loop minBase normalizedCounter count ss m'
                      (sint (word_of_int vTotal + minBase)))
          else normalize_add_loop minBase normalizedCounter count ss m vTotal)"

text \<open>
  The last loop of \<^verbatim>\<open>FSE_normalizeCount\<close>. The result \<open>True\<close> is the early
  \<^verbatim>\<open>return 0\<close> (``There is only one symbol''). The sum \<^verbatim>\<open>cumulativeRest += rest\<close> of two
  \<^verbatim>\<open>int\<close> values is taken on 32 bits; \<^verbatim>\<open>cumulativeRest >> scale\<close> is the arithmetic
  shift of an \<^verbatim>\<open>int\<close>.
\<close>

fun normalize_main_loop ::
  "u32 \<Rightarrow> nat \<Rightarrow> u32 \<Rightarrow> u32 \<Rightarrow> nat \<Rightarrow> nat \<Rightarrow> nat list \<Rightarrow> store \<Rightarrow> int \<Rightarrow>
   fse_error + (bool \<times> store)" where
  "normalize_main_loop step scale vStep vTotal normalizedCounter count [] m cumulativeRest =
     Inr (False, m)"
| "normalize_main_loop step scale vStep vTotal normalizedCounter count (s # ss) m cumulativeRest =
     (case load m normalizedCounter s of
        Inl e \<Rightarrow> Inl e
      | Inr n \<Rightarrow>
          if n = vTotal then Inr (True, m)
          else (case load m count s of
                  Inl e \<Rightarrow> Inl e
                | Inr c \<Rightarrow>
                    if c > 0
                    then let size = drop_bit scale (n * step);
                             rest = sint (n * step - size * vStep);
                             cumulativeRest = sint (word_of_int cumulativeRest + word_of_int rest :: u32);
                             size = size + word_of_int (cumulativeRest div 2 ^ scale);
                             cumulativeRest = sint (word_of_int cumulativeRest AND (vStep - 1))
                         in (case store_at m normalizedCounter s size of
                               Inl e \<Rightarrow> Inl e
                             | Inr m' \<Rightarrow>
                                 normalize_main_loop step scale vStep vTotal normalizedCounter
                                   count ss m' cumulativeRest)
                    else normalize_main_loop step scale vStep vTotal normalizedCounter count ss m
                           cumulativeRest))"

text \<open>Sequencing of steps that can fail: the first error ends the computation.\<close>

definition ebind :: "fse_error + 'a \<Rightarrow> ('a \<Rightarrow> fse_error + 'b) \<Rightarrow> fse_error + 'b" where
  "ebind r f = (case r of Inl e \<Rightarrow> Inl e | Inr x \<Rightarrow> f x)"

lemma ebind_cong [fundef_cong]:
  "r = r' \<Longrightarrow> (\<And>x. r' = Inr x \<Longrightarrow> f x = f' x) \<Longrightarrow> ebind r f = ebind r' f'"
  by (cases r') (simp_all add: ebind_def)

text \<open>
  The ``Check'' block of \<^verbatim>\<open>FSE_normalizeCount\<close>, which settles the table log or returns
  the error code. The parameter \<^verbatim>\<open>total\<close> is written \<open>total'\<close>.
\<close>

definition normalize_tableLog :: "int \<Rightarrow> int \<Rightarrow> int \<Rightarrow> fse_error + int" where
  "normalize_tableLog tableLog total' nbSymbols =
     (let tableLog = (if tableLog = 0 then FSE_MAX_TABLELOG else tableLog)
      in ebind (FSE_highbit (word_of_int (total' - 1))) (\<lambda>hbTotal.
         let tableLog = (if hbTotal + 1 < tableLog then hbTotal + 1 else tableLog)
         in ebind (FSE_highbit (word_of_int nbSymbols)) (\<lambda>hbSymbols.
            ebind (if hbSymbols + 1 > tableLog
                   then ebind (FSE_highbit (word_of_int (nbSymbols - 1))) (\<lambda>hb. Inr (hb + 1))
                   else Inr tableLog) (\<lambda>tableLog.
              let tableLog = (if tableLog < FSE_MIN_TABLELOG then FSE_MIN_TABLELOG else tableLog)
              in if tableLog > FSE_MAX_TABLELOG then Inl ErrorCode else Inr tableLog))))"

text \<open>The block ``Ensure proper scale''; it returns the store and \<^verbatim>\<open>vTotal\<close>.\<close>

definition normalize_scale ::
  "store \<Rightarrow> int \<Rightarrow> nat \<Rightarrow> int \<Rightarrow> int \<Rightarrow> fse_error + (store \<times> int)" where
  "normalize_scale m tableLog count total' nbSymbols =
     (let maxLog = FSE_VIRTUAL_LOG - tableLog
      in ebind (FSE_highbit (word_of_int (total' - 1))) (\<lambda>hbTotal.
         let srcLog = hbTotal + 1
         in if srcLog > maxLog
            then let shift = nat (srcLog - maxLog);
                     base = 2 ^ shift - 1
                 in normalize_scale_loop shift base count [0 ..< nat nbSymbols] m 0
            else Inr (m, total')))"

text \<open>The block ``Ensure minimum step is 1''.\<close>

definition normalize_minimum ::
  "store \<Rightarrow> int \<Rightarrow> nat \<Rightarrow> int \<Rightarrow> nat \<Rightarrow> int \<Rightarrow> int \<Rightarrow> (fse_error + (store \<times> int)) option" where
  "normalize_minimum m vTotal normalizedCounter tableLog count total' nbSymbols =
     (if total' > 2 ^ nat tableLog
      then (case normalize_minBase_loop (word_of_int total')
                   (drop_bit (nat tableLog) (word_of_int total' * word_of_int nbSymbols))
                   (word_of_int nbSymbols) (nat tableLog) of
              None \<Rightarrow> None
            | Some minBase \<Rightarrow>
                Some (normalize_add_loop (drop_bit (nat tableLog) minBase) normalizedCounter count
                        [0 ..< nat nbSymbols] m vTotal))
      else Some (Inr (m, vTotal)))"

text \<open>
  The last block: the scaling of every count by \<^verbatim>\<open>step\<close>. The division
  \<^verbatim>\<open>FSE_VIRTUAL_RANGE / vTotal\<close> is a division of \<^verbatim>\<open>U32\<close> values, undefined for the
  divisor 0.
\<close>

definition normalize_weights ::
  "store \<Rightarrow> int \<Rightarrow> nat \<Rightarrow> int \<Rightarrow> nat \<Rightarrow> int \<Rightarrow> fse_error + (int \<times> store)" where
  "normalize_weights m vTotal normalizedCounter tableLog count nbSymbols =
     (let scale = nat (FSE_VIRTUAL_LOG - tableLog);
          vStep = (2 ^ scale :: u32)
      in if (word_of_int vTotal :: u32) = 0 then Inl Undefined
         else let step = (2 ^ 30 :: u32) div word_of_int vTotal;
                  error = (2 ^ 30 :: u32) - step * word_of_int vTotal;
                  cumulativeRest =
                    (if error > vStep then sint error else sint (drop_bit 1 (vStep + error)))
              in ebind (normalize_main_loop step scale vStep (word_of_int vTotal) normalizedCounter
                          count [0 ..< nat nbSymbols] m cumulativeRest)
                   (\<lambda>(single, m). Inr (if single then 0 else tableLog, m)))"

text \<open>
  \<^verbatim>\<open>int FSE_normalizeCount (unsigned int* normalizedCounter, int tableLog,
  unsigned int* count, int total, int nbSymbols)\<close>. The result is the returned value (0 or
  the table log) and the store the function leaves.
\<close>

definition FSE_normalizeCount ::
  "store \<Rightarrow> nat \<Rightarrow> int \<Rightarrow> nat \<Rightarrow> int \<Rightarrow> int \<Rightarrow> (fse_error + (int \<times> store)) option" where
  "FSE_normalizeCount m normalizedCounter tableLog count total' nbSymbols =
     (case normalize_tableLog tableLog total' nbSymbols of
        Inl e \<Rightarrow> Some (Inl e)
      | Inr tableLog \<Rightarrow>
          (case normalize_scale m tableLog count total' nbSymbols of
             Inl e \<Rightarrow> Some (Inl e)
           | Inr (m, vTotal) \<Rightarrow>
               (case normalize_minimum m vTotal normalizedCounter tableLog count total' nbSymbols of
                  None \<Rightarrow> None
                | Some (Inl e) \<Rightarrow> Some (Inl e)
                | Some (Inr (m, vTotal)) \<Rightarrow>
                    Some (normalize_weights m vTotal normalizedCounter tableLog count nbSymbols))))"

section \<open>Header bitstream: \<^verbatim>\<open>FSE_writeHeader\<close> and \<^verbatim>\<open>FSE_readHeader\<close>\<close>

text \<open>
  Memory is little-endian. \<^verbatim>\<open>*(U16*)out = (U16)bitStream\<close> stores the two low bytes of
  the stream register; \<^verbatim>\<open>*(U32*)ip\<close> reads four bytes of the buffer \<open>mem\<close> at the
  offset \<open>ip\<close>, and is \<open>OutOfBounds\<close> when they are not all inside the buffer.

  A shift \<^verbatim>\<open><<\<close> or \<^verbatim>\<open>>>\<close> is \<open>push_bit\<close> or \<open>drop_bit\<close> on the type of its
  result; a shifted \<^verbatim>\<open>int\<close> that is then added to a \<^verbatim>\<open>U32\<close> is shifted as a
  \<^verbatim>\<open>U32\<close>.
\<close>

definition store16 :: "u32 \<Rightarrow> byte list" where
  "store16 v = [ucast v, ucast (drop_bit 8 v)]"

definition load32 :: "byte list \<Rightarrow> nat \<Rightarrow> fse_error + u32" where
  "load32 mem ip =
     (if ip + 4 \<le> length mem
      then Inr (word_of_int (uint (mem ! ip) + 2 ^ 8 * uint (mem ! (ip + 1)) +
                             2 ^ 16 * uint (mem ! (ip + 2)) + 2 ^ 24 * uint (mem ! (ip + 3))))
      else Inl OutOfBounds)"

text \<open>
  \<^verbatim>\<open>while (remaining<threshold) { nbBits--; threshold>>=1; }\<close>, the loop shared by the
  writer and the reader. Once \<open>remaining\<close> is negative, \<open>threshold\<close> reaches 0 and
  the loop never ends.
\<close>

partial_function (option) header_halve :: "int \<Rightarrow> int \<Rightarrow> int \<Rightarrow> (int \<times> int) option" where
  "header_halve remaining nbBits threshold =
     (if remaining < threshold then header_halve remaining (nbBits - 1) (drop_bit 1 threshold)
      else Some (nbBits, threshold))"

declare header_halve.simps [code]

subsection \<open>The writer\<close>

text \<open>The local variables of \<^verbatim>\<open>FSE_writeHeader\<close>; \<open>wOut\<close> is the list of the bytes
  stored below the pointer \<^verbatim>\<open>out\<close>.\<close>

record wh_state =
  wOut :: "byte list"
  wBitStream :: u32
  wBitCount :: int
  wCharnum :: nat
  wPrevious0 :: bool
  wRemaining :: int
  wThreshold :: int
  wNbBits :: int

text \<open>\<^verbatim>\<open>if (bitCount>16) { *(U16*)out = (U16)bitStream; out += 2; bitStream >>= 16;
  bitCount -= 16; }\<close>\<close>

definition wh_flush :: "wh_state \<Rightarrow> wh_state" where
  "wh_flush st =
     (if wBitCount st > 16
      then st\<lparr>wOut := wOut st @ store16 (wBitStream st),
              wBitStream := drop_bit 16 (wBitStream st),
              wBitCount := wBitCount st - 16\<rparr>
      else st)"

text \<open>\<^verbatim>\<open>while (!normalizedCounter[charnum++]); charnum--;\<close> on the entries from
  \<open>charnum\<close> on: the index of the first entry that is not zero.\<close>

fun wh_skip_zeros :: "u32 list \<Rightarrow> nat \<Rightarrow> fse_error + nat" where
  "wh_skip_zeros [] charnum = Inl OutOfBounds"
| "wh_skip_zeros (c # cs) charnum = (if c = 0 then wh_skip_zeros cs (charnum + 1) else Inr charnum)"

text \<open>\<^verbatim>\<open>while (charnum >= start+24) { start+=24; bitStream += 0xFFFF<<bitCount;
  *(U16*)out=(U16)bitStream; out+=2; bitStream>>=16; }\<close>\<close>

function wh_run24 :: "nat \<Rightarrow> nat \<Rightarrow> wh_state \<Rightarrow> nat \<times> wh_state" where
  "wh_run24 charnum start st =
     (if charnum \<ge> start + 24
      then let bitStream = wBitStream st + push_bit (nat (wBitCount st)) 0xFFFF
           in wh_run24 charnum (start + 24)
                (st\<lparr>wOut := wOut st @ store16 bitStream, wBitStream := drop_bit 16 bitStream\<rparr>)
      else (start, st))"
  by pat_completeness auto
termination
  by (relation "measure (\<lambda>(charnum, start, st). charnum - start)") auto

declare wh_run24.simps [simp del]

text \<open>\<^verbatim>\<open>while (charnum >= start+3) { start+=3; bitStream += 3 << bitCount; bitCount += 2; }\<close>\<close>

function wh_run3 :: "nat \<Rightarrow> nat \<Rightarrow> wh_state \<Rightarrow> nat \<times> wh_state" where
  "wh_run3 charnum start st =
     (if charnum \<ge> start + 3
      then wh_run3 charnum (start + 3)
             (st\<lparr>wBitStream := wBitStream st + push_bit (nat (wBitCount st)) 3,
                 wBitCount := wBitCount st + 2\<rparr>)
      else (start, st))"
  by pat_completeness auto
termination
  by (relation "measure (\<lambda>(charnum, start, st). charnum - start)") auto

declare wh_run3.simps [simp del]

text \<open>The block \<^verbatim>\<open>if (previous0) { ... }\<close> of the writer.\<close>

definition wh_zero_run :: "u32 list \<Rightarrow> wh_state \<Rightarrow> fse_error + wh_state" where
  "wh_zero_run normalizedCounter st =
     (case wh_skip_zeros (drop (wCharnum st) normalizedCounter) (wCharnum st) of
        Inl e \<Rightarrow> Inl e
      | Inr charnum \<Rightarrow>
          (case wh_run24 charnum (wCharnum st) st of (start, st) \<Rightarrow>
          (case wh_run3 charnum start st of (start, st) \<Rightarrow>
             Inr (wh_flush
               (st\<lparr>wBitStream := wBitStream st +
                                   push_bit (nat (wBitCount st)) (word_of_int (int charnum - int start)),
                   wBitCount := wBitCount st + 2,
                   wCharnum := charnum\<rparr>)))))"

text \<open>The block that writes one count, up to the loop on \<open>threshold\<close>, and the flush
  that follows it.\<close>

definition wh_count :: "u32 list \<Rightarrow> wh_state \<Rightarrow> (fse_error + wh_state) option" where
  "wh_count normalizedCounter st =
     (if wCharnum st < length normalizedCounter
      then let count = sint (normalizedCounter ! wCharnum st);
               max = (2 * wThreshold st - 1) - wRemaining st;
               remaining = wRemaining st - count;
               count = (if count \<ge> wThreshold st then count + max else count);
               bitStream = wBitStream st + push_bit (nat (wBitCount st)) (word_of_int count);
               bitCount = wBitCount st + wNbBits st;
               bitCount = bitCount - (if count < max then 1 else 0)
           in (case header_halve remaining (wNbBits st) (wThreshold st) of
                 None \<Rightarrow> None
               | Some (nbBits, threshold) \<Rightarrow>
                   Some (Inr (wh_flush
                     (st\<lparr>wBitStream := bitStream, wBitCount := bitCount,
                         wCharnum := wCharnum st + 1, wPrevious0 := (count = 0),
                         wRemaining := remaining, wThreshold := threshold, wNbBits := nbBits\<rparr>))))
      else Some (Inl OutOfBounds))"

text \<open>\<^verbatim>\<open>while (remaining>0) { ... }\<close>\<close>

partial_function (option) wh_loop :: "u32 list \<Rightarrow> wh_state \<Rightarrow> (fse_error + wh_state) option" where
  "wh_loop normalizedCounter st =
     (if wRemaining st > 0
      then (case (if wPrevious0 st then wh_zero_run normalizedCounter st else Inr st) of
              Inl e \<Rightarrow> Some (Inl e)
            | Inr st1 \<Rightarrow>
                (case wh_count normalizedCounter st1 of
                   None \<Rightarrow> None
                 | Some (Inl e) \<Rightarrow> Some (Inl e)
                 | Some (Inr st2) \<Rightarrow> wh_loop normalizedCounter st2))
      else Some (Inr st))"

declare wh_loop.simps [code]

text \<open>
  \<^verbatim>\<open>int FSE_writeHeader (void* header, const unsigned int* normalizedCounter,
  int nbSymbols, int tableLog)\<close>. The result is the returned length and the bytes
  \<^verbatim>\<open>header[0..length)\<close>.
\<close>

definition FSE_writeHeader :: "u32 list \<Rightarrow> int \<Rightarrow> int \<Rightarrow> (fse_error + (int \<times> byte list)) option" where
  "FSE_writeHeader normalizedCounter nbSymbols tableLog =
     (let tableSize = 2 ^ nat tableLog
      in if tableLog > FSE_MAX_TABLELOG then Some (Inl ErrorCode)
         else if tableLog < FSE_MIN_TABLELOG then Some (Inl ErrorCode)
         else let st = \<lparr>wOut = [],
                        wBitStream = 2 + push_bit 2 (word_of_int (tableLog - FSE_MIN_TABLELOG)),
                        wBitCount = 2 + 4,
                        wCharnum = 0,
                        wPrevious0 = False,
                        wRemaining = tableSize,
                        wThreshold = tableSize,
                        wNbBits = tableLog + 1\<rparr>
              in (case wh_loop normalizedCounter st of
                    None \<Rightarrow> None
                  | Some (Inl e) \<Rightarrow> Some (Inl e)
                  | Some (Inr st) \<Rightarrow>
                      if wRemaining st < 0 then Some (Inl ErrorCode)
                      else let out = wOut st @ take (nat ((wBitCount st + 7) div 8))
                                                    (store16 (wBitStream st))
                           in if int (wCharnum st) > nbSymbols then Some (Inl ErrorCode)
                              else Some (Inr (int (length out), out))))"

subsection \<open>The reader\<close>

text \<open>The local variables of \<^verbatim>\<open>FSE_readHeader\<close>; \<open>rIp\<close> is the offset of \<^verbatim>\<open>ip\<close> in
  the buffer and \<open>rCounter\<close> the array \<^verbatim>\<open>normalizedCounter\<close> of the caller.\<close>

record rh_state =
  rIp :: nat
  rBitStream :: u32
  rBitCount :: int
  rCharnum :: nat
  rPrevious0 :: bool
  rRemaining :: int
  rThreshold :: int
  rNbBits :: int
  rCounter :: "u32 list"

text \<open>\<^verbatim>\<open>ip += bitCount>>3; bitCount &= 7; bitStream = (*(U32*)ip) >> bitCount;\<close>\<close>

definition rh_reload :: "byte list \<Rightarrow> rh_state \<Rightarrow> fse_error + rh_state" where
  "rh_reload mem st =
     (let ip = rIp st + nat (drop_bit 3 (rBitCount st));
          bitCount = rBitCount st AND 7
      in case load32 mem ip of
           Inl e \<Rightarrow> Inl e
         | Inr w \<Rightarrow> Inr (st\<lparr>rIp := ip, rBitCount := bitCount, rBitStream := drop_bit (nat bitCount) w\<rparr>))"

text \<open>\<^verbatim>\<open>while ((bitStream & 0xFFFF) == 0xFFFF) { n0+=24; ip+=2;
  bitStream = (*(U32*)ip) >> bitCount; }\<close>\<close>

function rh_run24 :: "byte list \<Rightarrow> nat \<Rightarrow> rh_state \<Rightarrow> fse_error + (nat \<times> rh_state)" where
  "rh_run24 mem n0 st =
     (if rBitStream st AND 0xFFFF = 0xFFFF
      then (case load32 mem (rIp st + 2) of
              Inl e \<Rightarrow> Inl e
            | Inr w \<Rightarrow>
                rh_run24 mem (n0 + 24)
                  (st\<lparr>rIp := rIp st + 2, rBitStream := drop_bit (nat (rBitCount st)) w\<rparr>))
      else Inr (n0, st))"
  by pat_completeness auto
termination
  by (relation "measure (\<lambda>(mem, n0, st). length mem - rIp st)")
    (auto simp: load32_def split: if_splits)

declare rh_run24.simps [simp del]

text \<open>\<^verbatim>\<open>while ((bitStream & 3) == 3) { n0+=3; bitStream>>=2; bitCount+=2; }\<close>\<close>

function rh_run3 :: "nat \<Rightarrow> rh_state \<Rightarrow> nat \<times> rh_state" where
  "rh_run3 n0 st =
     (if rBitStream st AND 3 = 3
      then rh_run3 (n0 + 3)
             (st\<lparr>rBitStream := drop_bit 2 (rBitStream st), rBitCount := rBitCount st + 2\<rparr>)
      else (n0, st))"
  by pat_completeness auto
termination
proof (relation "measure (\<lambda>(n0, st). unat (rBitStream st))")
  show "wf (measure (\<lambda>(n0, st). unat (rBitStream st)))"
    by simp
next
  fix n0 :: nat and st :: rh_state
  assume a: "rBitStream st AND 3 = 3"
  have "rBitStream st \<noteq> 0"
    using a by auto
  then have "0 < unat (rBitStream st)"
    by (simp add: unat_gt_0)
  then have "unat (rBitStream st) div 2 ^ 2 < unat (rBitStream st)"
    by simp
  then have "unat (drop_bit 2 (rBitStream st)) < unat (rBitStream st)"
    unfolding unat_drop_bit_eq by (simp add: drop_bit_eq_div)
  then show "((n0 + 3, st\<lparr>rBitStream := drop_bit 2 (rBitStream st), rBitCount := rBitCount st + 2\<rparr>),
              (n0, st)) \<in> measure (\<lambda>(n0, st). unat (rBitStream st))"
    by simp
qed

declare rh_run3.simps [simp del]

text \<open>\<^verbatim>\<open>while (charnum < n0) normalizedCounter[charnum++] = 0;\<close>\<close>

function rh_fill :: "nat \<Rightarrow> nat \<Rightarrow> u32 list \<Rightarrow> fse_error + (nat \<times> u32 list)" where
  "rh_fill n0 charnum counter =
     (if charnum < n0
      then (if charnum < length counter then rh_fill n0 (charnum + 1) (counter[charnum := 0])
            else Inl OutOfBounds)
      else Inr (charnum, counter))"
  by pat_completeness auto
termination
  by (relation "measure (\<lambda>(n0, charnum, counter). n0 - charnum)") auto

declare rh_fill.simps [simp del]

text \<open>The block \<^verbatim>\<open>if (previous0) { ... }\<close> of the reader.\<close>

definition rh_zero_run :: "byte list \<Rightarrow> rh_state \<Rightarrow> fse_error + rh_state" where
  "rh_zero_run mem st =
     (case rh_run24 mem (rCharnum st) st of
        Inl e \<Rightarrow> Inl e
      | Inr (n0, st) \<Rightarrow>
          (case rh_run3 n0 st of (n0, st) \<Rightarrow>
             (let n0 = n0 + unat (rBitStream st AND 3);
                  bitCount = rBitCount st + 2
              in case rh_fill n0 (rCharnum st) (rCounter st) of
                   Inl e \<Rightarrow> Inl e
                 | Inr (charnum, counter) \<Rightarrow>
                     rh_reload mem (st\<lparr>rBitCount := bitCount, rCharnum := charnum,
                                       rCounter := counter\<rparr>))))"

text \<open>The block that reads one count.\<close>

definition rh_count :: "byte list \<Rightarrow> rh_state \<Rightarrow> (fse_error + rh_state) option" where
  "rh_count mem st =
     (let max = (word_of_int ((2 * rThreshold st - 1) - rRemaining st) :: u32);
          (count, bitCount) =
             (if (rBitStream st AND word_of_int (rThreshold st - 1)) < max
              then (sint (rBitStream st AND word_of_int (rThreshold st - 1)),
                    rBitCount st + (rNbBits st - 1))
              else let count = sint (rBitStream st AND word_of_int (2 * rThreshold st - 1));
                       count = (if count \<ge> rThreshold st then sint (word_of_int count - max) else count)
                   in (count, rBitCount st + rNbBits st));
          remaining = rRemaining st - count
      in if rCharnum st < length (rCounter st)
         then (case header_halve remaining (rNbBits st) (rThreshold st) of
                 None \<Rightarrow> None
               | Some (nbBits, threshold) \<Rightarrow>
                   Some (rh_reload mem
                     (st\<lparr>rBitCount := bitCount, rCharnum := rCharnum st + 1,
                         rPrevious0 := (count = 0), rRemaining := remaining,
                         rThreshold := threshold, rNbBits := nbBits,
                         rCounter := (rCounter st)[rCharnum st := word_of_int count]\<rparr>)))
         else Some (Inl OutOfBounds))"

text \<open>\<^verbatim>\<open>while (remaining>0) { ... }\<close>\<close>

partial_function (option) rh_loop :: "byte list \<Rightarrow> rh_state \<Rightarrow> (fse_error + rh_state) option" where
  "rh_loop mem st =
     (if rRemaining st > 0
      then (case (if rPrevious0 st then rh_zero_run mem st else Inr st) of
              Inl e \<Rightarrow> Some (Inl e)
            | Inr st1 \<Rightarrow>
                (case rh_count mem st1 of
                   None \<Rightarrow> None
                 | Some (Inl e) \<Rightarrow> Some (Inl e)
                 | Some (Inr st2) \<Rightarrow> rh_loop mem st2))
      else Some (Inr st))"

declare rh_loop.simps [code]

text \<open>
  \<^verbatim>\<open>int FSE_readHeader (unsigned int* const normalizedCounter, int* nbSymbols,
  int* tableLog, const void* header)\<close>. The buffer \<open>mem\<close> starts at \<^verbatim>\<open>header\<close>, and
  \<open>counter\<close> is the array \<^verbatim>\<open>normalizedCounter\<close> as the caller passes it. The result
  is the returned length, the array, \<^verbatim>\<open>*nbSymbols\<close> and \<^verbatim>\<open>*tableLog\<close>.
\<close>

definition FSE_readHeader ::
  "u32 list \<Rightarrow> byte list \<Rightarrow> (fse_error + (int \<times> u32 list \<times> int \<times> int)) option" where
  "FSE_readHeader counter mem =
     (case load32 mem 0 of
        Inl e \<Rightarrow> Some (Inl e)
      | Inr w \<Rightarrow>
          let bitStream = drop_bit 2 w;
              nbBits = uint (bitStream AND 0xF) + FSE_MIN_TABLELOG;
              bitStream = drop_bit 4 bitStream;
              tableLog = nbBits;
              remaining = 2 ^ nat nbBits;
              st = \<lparr>rIp = 0, rBitStream = bitStream, rBitCount = 6, rCharnum = 0,
                    rPrevious0 = False, rRemaining = remaining, rThreshold = remaining,
                    rNbBits = nbBits + 1, rCounter = counter\<rparr>
          in (case rh_loop mem st of
                None \<Rightarrow> None
              | Some (Inl e) \<Rightarrow> Some (Inl e)
              | Some (Inr st) \<Rightarrow>
                  if rRemaining st < 0 then Some (Inl ErrorCode)
                  else if rNbBits st > FSE_MAX_TABLELOG then Some (Inl ErrorCode)
                  else Some (Inr (int (rIp st) + (if rBitCount st > 0 then 1 else 0),
                                  rCounter st, int (rCharnum st), tableLog))))"

section \<open>Symbol spreading: \<^verbatim>\<open>FSE_spreadSymbols8\<close>\<close>

text \<open>
  An array that a C function declares without initialising it, or receives from a caller
  that did so, is a list of options: \<open>None\<close> is an element that was never written, and reading
  it is \<open>Undefined\<close>.

  \<^verbatim>\<open>#define FSE_TABLESTEP(tableSize) ((tableSize>>1) + (tableSize>>3) + 3)\<close>
\<close>

definition FSE_TABLESTEP :: "int \<Rightarrow> int" where
  "FSE_TABLESTEP tableSize = drop_bit 1 tableSize + drop_bit 3 tableSize + 3"

text \<open>
  The inner loop \<^verbatim>\<open>for (i=0; i<normalizedCounter[s]; i++)\<close>, over the values of \<open>i\<close>:
  \<^verbatim>\<open>tableSymbolByte[position] = (BYTE)s; position = (position + step) & tableMask;\<close>
\<close>

fun spread_symbol ::
  "int \<Rightarrow> int \<Rightarrow> byte \<Rightarrow> nat list \<Rightarrow> byte option list \<Rightarrow> int \<Rightarrow>
   fse_error + (byte option list \<times> int)" where
  "spread_symbol step tableMask s [] tableSymbolByte position = Inr (tableSymbolByte, position)"
| "spread_symbol step tableMask s (i # is) tableSymbolByte position =
     (if 0 \<le> position \<and> nat position < length tableSymbolByte
      then spread_symbol step tableMask s is (tableSymbolByte[nat position := Some s])
             ((position + step) AND tableMask)
      else Inl OutOfBounds)"

text \<open>The outer loop \<^verbatim>\<open>for (s=0; s<nbSymbols; s++)\<close>.\<close>

fun spread_loop ::
  "int \<Rightarrow> int \<Rightarrow> u32 list \<Rightarrow> nat list \<Rightarrow> byte option list \<Rightarrow> int \<Rightarrow>
   fse_error + (byte option list \<times> int)" where
  "spread_loop step tableMask normalizedCounter [] tableSymbolByte position =
     Inr (tableSymbolByte, position)"
| "spread_loop step tableMask normalizedCounter (s # ss) tableSymbolByte position =
     (if s < length normalizedCounter
      then (case spread_symbol step tableMask (word_of_int (int s))
                   [0 ..< unat (normalizedCounter ! s)] tableSymbolByte position of
              Inl e \<Rightarrow> Inl e
            | Inr (tableSymbolByte, position) \<Rightarrow>
                spread_loop step tableMask normalizedCounter ss tableSymbolByte position)
      else Inl OutOfBounds)"

text \<open>
  \<^verbatim>\<open>int FSE_spreadSymbols8(BYTE* tableSymbolByte, const unsigned int* normalizedCounter,
  int nbSymbols, int tableLog)\<close>, as compiled without \<^verbatim>\<open>SPREADFUNC\<close>. The result is the
  array \<^verbatim>\<open>tableSymbolByte\<close>.
\<close>

definition FSE_spreadSymbols8 ::
  "byte option list \<Rightarrow> u32 list \<Rightarrow> int \<Rightarrow> int \<Rightarrow> fse_error + byte option list" where
  "FSE_spreadSymbols8 tableSymbolByte normalizedCounter nbSymbols tableLog =
     (let tableSize = 2 ^ nat tableLog;
          step = FSE_TABLESTEP tableSize;
          tableMask = tableSize - 1
      in case spread_loop step tableMask normalizedCounter [0 ..< nat nbSymbols] tableSymbolByte 0 of
           Inl e \<Rightarrow> Inl e
         | Inr (tableSymbolByte, position) \<Rightarrow>
             if position \<noteq> 0 then Inl ErrorCode else Inr tableSymbolByte)"

section \<open>Encoder table: \<^verbatim>\<open>FSE_buildCTable\<close>\<close>

record FSE_symbolCompressionTransform =
  deltaFindState :: int
  maxState :: u16
  minBitsOut :: byte

text \<open>
  The \<^verbatim>\<open>CTable\<close> of the source is one block of memory: two \<^verbatim>\<open>U16\<close> (the table log and
  the number of symbols), the \<^verbatim>\<open>1 << tableLog\<close> next states and the transforms of the
  symbols. The model keeps the four parts apart; an index outside a part is
  \<open>OutOfBounds\<close>.
\<close>

record CTable =
  ctTableLog :: u16
  ctNbSymbols :: u16
  ctStateTable :: "u16 option list"
  ctSymbolTT :: "FSE_symbolCompressionTransform option list"

text \<open>\<^verbatim>\<open>for (i=1; i<nbSymbols; i++) cumul[i] = cumul[i-1] + normalizedCounter[i-1];\<close>\<close>

fun buildCTable_cumul ::
  "u32 list \<Rightarrow> nat list \<Rightarrow> int option list \<Rightarrow> fse_error + int option list" where
  "buildCTable_cumul normalizedCounter [] cumul = Inr cumul"
| "buildCTable_cumul normalizedCounter (i # is) cumul =
     (if i < length cumul \<and> i - 1 < length normalizedCounter
      then (case cumul ! (i - 1) of
              None \<Rightarrow> Inl Undefined
            | Some c \<Rightarrow>
                buildCTable_cumul normalizedCounter is
                  (cumul[i := Some (sint (word_of_int c + normalizedCounter ! (i - 1)))]))
      else Inl OutOfBounds)"

text \<open>\<^verbatim>\<open>for (i=0; i<tableSize; i++) { BYTE s = tableSymbolByte[i];
  tableU16[cumul[s]++] = (U16) (tableSize+i); }\<close>\<close>

fun buildCTable_table ::
  "int \<Rightarrow> byte option list \<Rightarrow> nat list \<Rightarrow> int option list \<Rightarrow> u16 option list \<Rightarrow>
   fse_error + u16 option list" where
  "buildCTable_table tableSize tableSymbolByte [] cumul tableU16 = Inr tableU16"
| "buildCTable_table tableSize tableSymbolByte (i # is) cumul tableU16 =
     (if i < length tableSymbolByte
      then (case tableSymbolByte ! i of
              None \<Rightarrow> Inl Undefined
            | Some s \<Rightarrow>
                (if unat s < length cumul
                 then (case cumul ! unat s of
                         None \<Rightarrow> Inl Undefined
                       | Some c \<Rightarrow>
                           (if 0 \<le> c \<and> nat c < length tableU16
                            then buildCTable_table tableSize tableSymbolByte is
                                   (cumul[unat s := Some (c + 1)])
                                   (tableU16[nat c := Some (word_of_int (tableSize + int i))])
                            else Inl OutOfBounds))
                 else Inl OutOfBounds))
      else Inl OutOfBounds)"

text \<open>The loop ``Build Symbol Transformation Table'', with its \<^verbatim>\<open>switch\<close> on
  \<^verbatim>\<open>normalizedCounter[s]\<close>. The parameter \<^verbatim>\<open>total\<close> is written \<open>total'\<close>.\<close>

fun buildCTable_symbolTT ::
  "int \<Rightarrow> int \<Rightarrow> u32 list \<Rightarrow> nat list \<Rightarrow> FSE_symbolCompressionTransform option list \<Rightarrow> int \<Rightarrow>
   fse_error + FSE_symbolCompressionTransform option list" where
  "buildCTable_symbolTT tableLog tableSize normalizedCounter [] symbolTT total' = Inr symbolTT"
| "buildCTable_symbolTT tableLog tableSize normalizedCounter (s # ss) symbolTT total' =
     (if s < length normalizedCounter \<and> s < length symbolTT
      then (if normalizedCounter ! s = 0
            then buildCTable_symbolTT tableLog tableSize normalizedCounter ss symbolTT total'
            else if normalizedCounter ! s = 1
            then buildCTable_symbolTT tableLog tableSize normalizedCounter ss
                   (symbolTT[s := Some \<lparr>deltaFindState = total' - 1,
                                          maxState = word_of_int (tableSize * 2 - 1),
                                          minBitsOut = word_of_int tableLog\<rparr>])
                   (total' + 1)
            else (case FSE_highbit (normalizedCounter ! s - 1) of
                    Inl e \<Rightarrow> Inl e
                  | Inr hb \<Rightarrow>
                      let mbo = (word_of_int ((tableLog - 1) - hb) :: byte)
                      in buildCTable_symbolTT tableLog tableSize normalizedCounter ss
                           (symbolTT[s := Some
                              \<lparr>deltaFindState = sint (word_of_int total' - normalizedCounter ! s),
                               maxState = ucast (push_bit (nat (uint mbo + 1)) (normalizedCounter ! s) - 1),
                               minBitsOut = mbo\<rparr>])
                           (sint (word_of_int total' + normalizedCounter ! s))))
      else Inl OutOfBounds)"

text \<open>
  \<^verbatim>\<open>int FSE_buildCTable (void* CTable, const unsigned int* normalizedCounter,
  int nbSymbols, int tableLog)\<close>. The arrays \<^verbatim>\<open>cumul\<close> (257 entries) and
  \<^verbatim>\<open>tableSymbolByte\<close> (4096 entries) are locals and the \<^verbatim>\<open>CTable\<close> is memory of the
  caller, all without initial contents.
\<close>

definition FSE_buildCTable :: "u32 list \<Rightarrow> int \<Rightarrow> int \<Rightarrow> fse_error + CTable" where
  "FSE_buildCTable normalizedCounter nbSymbols tableLog =
     (let tableSize = 2 ^ nat tableLog;
          cumul = (replicate (nat (FSE_MAX_NB_SYMBOLS_CHAR + 1)) None)[0 := Some 0];
          tableSymbolByte = replicate (nat (2 ^ nat FSE_MAX_TABLELOG)) None
      in ebind (buildCTable_cumul normalizedCounter [1 ..< nat nbSymbols] cumul) (\<lambda>cumul.
         if 0 \<le> nbSymbols \<and> nat nbSymbols < length cumul
         then let cumul = cumul[nat nbSymbols := Some (tableSize + 1)]
              in ebind (FSE_spreadSymbols8 tableSymbolByte normalizedCounter nbSymbols tableLog)
                   (\<lambda>tableSymbolByte.
                 ebind (buildCTable_table tableSize tableSymbolByte [0 ..< nat tableSize] cumul
                          (replicate (nat tableSize) None)) (\<lambda>tableU16.
                 ebind (buildCTable_symbolTT tableLog tableSize normalizedCounter
                          [0 ..< nat nbSymbols] (replicate (nat nbSymbols) None) 0) (\<lambda>symbolTT.
                 Inr \<lparr>ctTableLog = word_of_int tableLog, ctNbSymbols = word_of_int nbSymbols,
                      ctStateTable = tableU16, ctSymbolTT = symbolTT\<rparr>)))
         else Inl OutOfBounds))"

section \<open>The encoder\<close>

text \<open>
  Modelled from the spec: the type \<^verbatim>\<open>bitContainer_forward_t\<close> and the operations
  \<^verbatim>\<open>FSE_addBits\<close> and \<^verbatim>\<open>FSE_flushBits\<close>, which \<^verbatim>\<open>fse.c\<close> uses and \<^verbatim>\<open>fse.h\<close>
  declares. The forward bit container ``holds an accumulator and a bit position in
  \<open>[0,8)\<close>''; the accumulator is word-sized (\<^verbatim>\<open>size_t\<close>, 64 bits here).
  \<open>addBits(v, n)\<close> appends the low \<open>n\<close> bits of \<open>v\<close>: it ``shifts \<open>v\<close> left by the position and
  ORs in''. \<open>flushBits\<close> ``writes whole bytes to \<open>*op++\<close>, leaving the residual bits in
  position'': the bytes below the advanced pointer are the whole bytes of the accumulator,
  and the residual bits are the low bits of the accumulator again.
\<close>

record bitContainer_forward_t =
  bitContainerF :: "64 word"
  bitPos :: int

definition FSE_addBits :: "bitContainer_forward_t \<Rightarrow> 64 word \<Rightarrow> int \<Rightarrow> bitContainer_forward_t" where
  "FSE_addBits bitC val nbBits =
     bitC\<lparr>bitContainerF := bitContainerF bitC OR
                              push_bit (nat (bitPos bitC)) (take_bit (nat nbBits) val),
          bitPos := bitPos bitC + nbBits\<rparr>"

definition FSE_flushBits ::
  "byte list \<Rightarrow> bitContainer_forward_t \<Rightarrow> byte list \<times> bitContainer_forward_t" where
  "FSE_flushBits out bitC =
     (let nbBytes = nat (drop_bit 3 (bitPos bitC))
      in (out @ map (\<lambda>i. ucast (drop_bit (8 * i) (bitContainerF bitC))) [0 ..< nbBytes],
          bitC\<lparr>bitContainerF := drop_bit (8 * nbBytes) (bitContainerF bitC),
               bitPos := bitPos bitC AND 7\<rparr>))"

text \<open>
  \<^verbatim>\<open>void FSE_encodeByte(ptrdiff_t* state, bitContainer_forward_t* bitC, BYTE symbol,
  const void* CTable1, const void* CTable2)\<close>. The state is a \<^verbatim>\<open>ptrdiff_t\<close>, an integer
  here; \<^verbatim>\<open>(maxState - *state) >> 31\<close> is the arithmetic shift of their difference.
\<close>

definition FSE_encodeByte ::
  "int \<Rightarrow> bitContainer_forward_t \<Rightarrow> byte \<Rightarrow> CTable \<Rightarrow> fse_error + (int \<times> bitContainer_forward_t)" where
  "FSE_encodeByte state bitC symbol ct =
     (if unat symbol < length (ctSymbolTT ct)
      then (case ctSymbolTT ct ! unat symbol of
              None \<Rightarrow> Inl Undefined
            | Some tt \<Rightarrow>
                let nbBitsOut = uint (minBitsOut tt);
                    nbBitsOut = nbBitsOut - drop_bit 31 (uint (maxState tt) - state);
                    bitC = FSE_addBits bitC (word_of_int state) nbBitsOut;
                    idx = drop_bit (nat nbBitsOut) state + deltaFindState tt
                in if 0 \<le> idx \<and> nat idx < length (ctStateTable ct)
                   then (case ctStateTable ct ! nat idx of
                           None \<Rightarrow> Inl Undefined
                         | Some nextState \<Rightarrow> Inr (uint nextState, bitC))
                   else Inl OutOfBounds)
      else Inl OutOfBounds)"

text \<open>
  \<^verbatim>\<open>int FSE_closeCompressionStream(void* outPtr, bitContainer_forward_t* bitC, int nbStates,
  ptrdiff_t state1, ..., ptrdiff_t state4, void* compressionStreamDescriptor,
  const void* CTable)\<close>. The list \<open>out\<close> holds the bytes between the four bytes reserved
  for the descriptor and \<^verbatim>\<open>outPtr\<close>. The result is the returned length and the bytes of
  the stream from the descriptor on.
\<close>

definition close_state ::
  "int \<Rightarrow> int \<Rightarrow> byte list \<times> bitContainer_forward_t \<Rightarrow> byte list \<times> bitContainer_forward_t" where
  "close_state tableLog state ob = (case ob of (out, bitC) \<Rightarrow>
     FSE_flushBits out (FSE_addBits bitC (word_of_int state) tableLog))"

definition FSE_closeCompressionStream ::
  "byte list \<Rightarrow> bitContainer_forward_t \<Rightarrow> int \<Rightarrow> int \<Rightarrow> int \<Rightarrow> int \<Rightarrow> int \<Rightarrow> CTable \<Rightarrow>
   fse_error + (int \<times> byte list)" where
  "FSE_closeCompressionStream out bitC nbStates state1 state2 state3 state4 ct =
     (let tableLog = uint (ctTableLog ct)
      in if nbStates < 1 \<or> nbStates > 4 then Inl ErrorCode
         else let ob = (out, bitC);
                  ob = (if nbStates \<ge> 4 then close_state tableLog state4 ob else ob);
                  ob = (if nbStates \<ge> 3 then close_state tableLog state3 ob else ob);
                  ob = (if nbStates \<ge> 2 then close_state tableLog state2 ob else ob);
                  ob = close_state tableLog state1 ob
              in (case ob of (out, bitC) \<Rightarrow>
                    let out = (if bitPos bitC > 0 then out @ [ucast (bitContainerF bitC)] else out);
                        bp = 8 - bitPos bitC;
                        bp = (if bp = 8 then 0 else bp);
                        p = 4 + int (length out);
                        descriptor = (push_bit 3 (word_of_int p) + word_of_int bp +
                                      push_bit 30 (word_of_int (nbStates - 1)) :: u32)
                    in Inr (p, store16 descriptor @ store16 (drop_bit 16 descriptor) @ out)))"

text \<open>
  The loops of \<^verbatim>\<open>FSE_compress_usingCTable_generic\<close>. The offset \<open>ip\<close> counts the bytes of
  the source before the pointer \<^verbatim>\<open>ip\<close>; \<^verbatim>\<open>*--ip\<close> at the offset 0 reads before the
  source. The catch-up loop \<^verbatim>\<open>while (nbCatchup) { ...; nbCatchup--; }\<close>:
\<close>

function compress_catchup ::
  "byte list \<Rightarrow> CTable \<Rightarrow> int \<Rightarrow> nat \<Rightarrow> int \<Rightarrow> byte list \<times> bitContainer_forward_t \<Rightarrow>
   fse_error + (nat \<times> int \<times> byte list \<times> bitContainer_forward_t)" where
  "compress_catchup source ct nbCatchup ip state1 ob =
     (case ob of (out, bitC) \<Rightarrow>
        if nbCatchup \<noteq> 0
        then (if 0 < ip \<and> ip \<le> length source
              then (case FSE_encodeByte state1 bitC (source ! (ip - 1)) ct of
                      Inl e \<Rightarrow> Inl e
                    | Inr (state1, bitC) \<Rightarrow>
                        compress_catchup source ct (nbCatchup - 1) (ip - 1) state1
                          (FSE_flushBits out bitC))
              else Inl OutOfBounds)
        else Inr (ip, state1, out, bitC))"
  by pat_completeness auto
termination
  by (relation "measure (\<lambda>(source, ct, nbCatchup, ip, state1, ob). ip)") auto

declare compress_catchup.simps [simp del]

text \<open>The main loop \<^verbatim>\<open>while (ip>istart)\<close>, two symbols a round. The test
  \<^verbatim>\<open>sizeof(size_t)*8 < FSE_MAX_TABLELOG*2+7\<close> is false for a \<^verbatim>\<open>size_t\<close> of 64 bits, so
  there is no flush between the two symbols.\<close>

function compress_loop ::
  "byte list \<Rightarrow> CTable \<Rightarrow> bool \<Rightarrow> nat \<Rightarrow> int \<Rightarrow> int \<Rightarrow> byte list \<times> bitContainer_forward_t \<Rightarrow>
   fse_error + (int \<times> int \<times> byte list \<times> bitContainer_forward_t)" where
  "compress_loop source ct ilp ip state1 state2 ob =
     (case ob of (out, bitC) \<Rightarrow>
        if ip > 0
        then (if ip \<le> length source \<and> 1 < ip
              then (case FSE_encodeByte state1 bitC (source ! (ip - 1)) ct of
                      Inl e \<Rightarrow> Inl e
                    | Inr (state1, bitC) \<Rightarrow>
                        (if ilp
                         then (case FSE_encodeByte state2 bitC (source ! (ip - 2)) ct of
                                 Inl e \<Rightarrow> Inl e
                               | Inr (state2, bitC) \<Rightarrow>
                                   compress_loop source ct ilp (ip - 2) state1 state2
                                     (FSE_flushBits out bitC))
                         else (case FSE_encodeByte state1 bitC (source ! (ip - 2)) ct of
                                 Inl e \<Rightarrow> Inl e
                               | Inr (state1, bitC) \<Rightarrow>
                                   compress_loop source ct ilp (ip - 2) state1 state2
                                     (FSE_flushBits out bitC))))
              else Inl OutOfBounds)
        else Inr (state1, state2, out, bitC))"
  by pat_completeness auto
termination
  by (relation "measure (\<lambda>(source, ct, ilp, ip, state1, state2, ob). ip)") auto

declare compress_loop.simps [simp del]

text \<open>C's remainder \<^verbatim>\<open>%\<close> truncates towards zero.\<close>

definition c_rem :: "int \<Rightarrow> int \<Rightarrow> int" where
  "c_rem a b = sgn a * (\<bar>a\<bar> mod \<bar>b\<bar>)"

text \<open>
  \<^verbatim>\<open>FSE_compress_usingCTable_generic (void* dest, const unsigned char* source,
  int sourceSize, const void* CTable, int ilp)\<close>, with \<^verbatim>\<open>FSE_initCompressionStream\<close>
  inlined: the stream starts with four bytes for the descriptor, and every state starts
  at \<^verbatim>\<open>1 << tableLog\<close>. The result is the returned length and the bytes written.
\<close>

definition FSE_compress_usingCTable_generic ::
  "byte list \<Rightarrow> CTable \<Rightarrow> bool \<Rightarrow> fse_error + (int \<times> byte list)" where
  "FSE_compress_usingCTable_generic source ct ilp =
     (let sourceSize = int (length source);
          nbStreams = 1 + (if ilp then 1 else 0);
          state1 = 2 ^ unat (ctTableLog ct);
          state2 = state1;
          state3 = state1;
          ip = length source
      in if ip < 1 then Inl OutOfBounds
         else let state1 = state1 + uint (source ! (ip - 1));
                  ip = ip - 1
              in if ilp \<and> ip < 1 then Inl OutOfBounds
                 else let state2 = (if ilp then state2 + uint (source ! (ip - 1)) else state2);
                          ip = (if ilp then ip - 1 else ip);
                          nbCatchup = c_rem (sourceSize - nbStreams) 2
                      in ebind (compress_catchup source ct nbCatchup ip state1
                                  ([], \<lparr>bitContainerF = 0, bitPos = 0\<rparr>))
                           (\<lambda>(ip, state1, out, bitC).
                         ebind (compress_loop source ct ilp ip state1 state2 (out, bitC))
                           (\<lambda>(state1, state2, out, bitC).
                            FSE_closeCompressionStream out bitC nbStreams state1 state2 state3 0 ct)))"

text \<open>\<^verbatim>\<open>#define FSE_ILP 1\<close>\<close>

definition FSE_ILP :: bool where
  "FSE_ILP = True"

definition FSE_compress_usingCTable :: "byte list \<Rightarrow> CTable \<Rightarrow> fse_error + (int \<times> byte list)" where
  "FSE_compress_usingCTable source ct = FSE_compress_usingCTable_generic source ct FSE_ILP"

section \<open>Block compression: \<^verbatim>\<open>FSE_compress2\<close>\<close>

definition FSE_writeSingleChar :: "byte \<Rightarrow> int \<times> byte list" where
  "FSE_writeSingleChar symbol = (2, [1, symbol])"

definition FSE_noCompression :: "byte list \<Rightarrow> int \<times> byte list" where
  "FSE_noCompression inp = (int (length inp) + 1, 0 # inp)"

text \<open>
  \<^verbatim>\<open>int FSE_compress2 (void* dest, const unsigned char* source, int sourceSize,
  int nbSymbols, int tableLog)\<close>. The array \<^verbatim>\<open>counting\<close> is the only array in the store
  that \<^verbatim>\<open>FSE_normalizeCount\<close> receives, for both of its pointers. The result is the
  returned length and the bytes \<^verbatim>\<open>dest[0..length)\<close>. The statistics that the function
  leaves in global variables are not part of the model.
\<close>

definition FSE_compress2 ::
  "byte list \<Rightarrow> int \<Rightarrow> int \<Rightarrow> (fse_error + (int \<times> byte list)) option" where
  "FSE_compress2 source nbSymbols tableLog =
     (let sourceSize = int (length source)
      in if sourceSize \<le> 1 then Some (Inr (FSE_noCompression source))
         else let nbSymbols = (if nbSymbols = 0 then FSE_MAX_NB_SYMBOLS_CHAR else nbSymbols);
                  tableLog = (if tableLog = 0 then FSE_MAX_TABLELOG else tableLog)
              in (case FSE_count source nbSymbols of
                    Inl e \<Rightarrow> Some (Inl e)
                  | Inr (errorCode, counting) \<Rightarrow>
                      if errorCode = 1 then Some (Inr (FSE_writeSingleChar (source ! 0)))
                      else let nbSymbols = errorCode
                           in (case FSE_normalizeCount [counting] 0 tableLog 0 sourceSize nbSymbols of
                                 None \<Rightarrow> None
                               | Some (Inl e) \<Rightarrow> Some (Inl e)
                               | Some (Inr (errorCode, m)) \<Rightarrow>
                                   if errorCode = 0 then Some (Inr (FSE_writeSingleChar (source ! 0)))
                                   else let tableLog = errorCode;
                                            counting = m ! 0
                                        in (case FSE_writeHeader counting nbSymbols tableLog of
                                              None \<Rightarrow> None
                                            | Some (Inl e) \<Rightarrow> Some (Inl e)
                                            | Some (Inr (hSize, header)) \<Rightarrow>
                                                Some (ebind (FSE_buildCTable counting nbSymbols tableLog) (\<lambda>ct.
                                                      ebind (FSE_compress_usingCTable source ct) (\<lambda>(cSize, stream).
                                                        if hSize + cSize \<ge> sourceSize - 1
                                                        then Inr (FSE_noCompression source)
                                                        else Inr (hSize + cSize, header @ stream))))))))"

text \<open>\<^verbatim>\<open>int FSE_compress (void* dest, const unsigned char* source, int sourceSize)\<close>\<close>

definition FSE_compress :: "byte list \<Rightarrow> (fse_error + (int \<times> byte list)) option" where
  "FSE_compress source = FSE_compress2 source FSE_MAX_NB_SYMBOLS_CHAR FSE_MAX_TABLELOG"

section \<open>Decoder table: \<^verbatim>\<open>FSE_buildDTable\<close>\<close>

record FSE_decode_t =
  newState :: u16
  symbol :: byte
  nbBits :: byte

text \<open>
  The second loop of \<^verbatim>\<open>FSE_buildDTable\<close>:
  \<^verbatim>\<open>for (i=0; i<tableSize; i++) { BYTE s = tableDecode[i].symbol;
  U32 nextState = symbolNext[s]++; tableDecode[i].nbBits = (BYTE) (tableLog - FSE_highbit
  (nextState)); tableDecode[i].newState = (U16) ((nextState << tableDecode[i].nbBits) -
  tableSize); }\<close> It takes the symbols from \<^verbatim>\<open>tableSymbolByte\<close>, which the first loop has
  copied to \<^verbatim>\<open>tableDecode[i].symbol\<close>, and returns the entries in reverse order of
  \<open>i\<close>.
\<close>

fun buildDTable_loop ::
  "int \<Rightarrow> int \<Rightarrow> byte option list \<Rightarrow> nat list \<Rightarrow> u32 option list \<Rightarrow> FSE_decode_t list \<Rightarrow>
   fse_error + FSE_decode_t list" where
  "buildDTable_loop tableLog tableSize tableSymbolByte [] symbolNext tableDecode = Inr tableDecode"
| "buildDTable_loop tableLog tableSize tableSymbolByte (i # is) symbolNext tableDecode =
     (if i < length tableSymbolByte
      then (case tableSymbolByte ! i of
              None \<Rightarrow> Inl Undefined
            | Some s \<Rightarrow>
                (if unat s < length symbolNext
                 then (case symbolNext ! unat s of
                         None \<Rightarrow> Inl Undefined
                       | Some nextState \<Rightarrow>
                           (case FSE_highbit nextState of
                              Inl e \<Rightarrow> Inl e
                            | Inr hb \<Rightarrow>
                                let nb = (word_of_int (tableLog - hb) :: byte)
                                in buildDTable_loop tableLog tableSize tableSymbolByte is
                                     (symbolNext[unat s := Some (nextState + 1)])
                                     (\<lparr>newState = ucast (push_bit (unat nb) nextState -
                                                          word_of_int tableSize),
                                       symbol = s, nbBits = nb\<rparr> # tableDecode)))
                 else Inl OutOfBounds))
      else Inl OutOfBounds)"

text \<open>
  \<^verbatim>\<open>int FSE_buildDTable (void* DTable, const unsigned int* const normalizedCounter,
  int nbSymbols, int tableLog)\<close>. The result is the array \<^verbatim>\<open>tableDecode[0..tableSize)\<close>.
  The local \<^verbatim>\<open>symbolNext\<close> has 256 entries, of which the function sets the first
  \<open>nbSymbols\<close>.
\<close>

definition FSE_buildDTable :: "u32 list \<Rightarrow> int \<Rightarrow> int \<Rightarrow> fse_error + FSE_decode_t list" where
  "FSE_buildDTable normalizedCounter nbSymbols tableLog =
     (let tableSize = 2 ^ nat tableLog;
          tableSymbolByte = replicate (nat (2 ^ nat FSE_MAX_TABLELOG)) None
      in if nbSymbols > FSE_MAX_NB_SYMBOLS_CHAR then Inl ErrorCode
         else if tableLog > FSE_MAX_TABLELOG then Inl ErrorCode
         else ebind (FSE_spreadSymbols8 tableSymbolByte normalizedCounter nbSymbols tableLog)
                (\<lambda>tableSymbolByte.
              if nat nbSymbols \<le> length normalizedCounter
              then let symbolNext = map Some (take (nat nbSymbols) normalizedCounter) @
                                    replicate (nat FSE_MAX_NB_SYMBOLS_CHAR - nat nbSymbols) None
                   in ebind (buildDTable_loop tableLog tableSize tableSymbolByte
                               [0 ..< nat tableSize] symbolNext [])
                        (\<lambda>tableDecode. Inr (rev tableDecode))
              else Inl OutOfBounds))"

section \<open>The decoder\<close>

text \<open>
  Modelled from the spec: the type \<^verbatim>\<open>bitContainer_backward_t\<close>, which \<^verbatim>\<open>fse.h\<close>
  declares: ``a 32-bit window + \<^verbatim>\<open>bitsConsumed\<close> counter'', with the fields
  \<^verbatim>\<open>bitContainer\<close> and \<^verbatim>\<open>bitsConsumed\<close> that \<^verbatim>\<open>fse.c\<close> uses.
\<close>

record bitContainer_backward_t =
  bitContainer :: u32
  bitsConsumed :: int

text \<open>A read of four bytes at an offset that can lie before the buffer.\<close>

definition load32i :: "byte list \<Rightarrow> int \<Rightarrow> fse_error + u32" where
  "load32i mem ip = (if 0 \<le> ip then load32 mem (nat ip) else Inl OutOfBounds)"

text \<open>\<^verbatim>\<open>void FSE_updateBitStream(bitContainer_backward_t* bitC, const void** ip)\<close>\<close>

definition FSE_updateBitStream ::
  "byte list \<Rightarrow> bitContainer_backward_t \<Rightarrow> int \<Rightarrow> fse_error + (bitContainer_backward_t \<times> int)" where
  "FSE_updateBitStream mem bitC ip =
     (let ip = ip - drop_bit 3 (bitsConsumed bitC)
      in ebind (load32i mem ip) (\<lambda>w.
           Inr (bitC\<lparr>bitContainer := w, bitsConsumed := bitsConsumed bitC AND 7\<rparr>, ip)))"

text \<open>
  \<^verbatim>\<open>U32 FSE_readBits(bitContainer_backward_t* bitC, int nbBits)\<close>:
  \<^verbatim>\<open>value = ((bitC->bitContainer << bitC->bitsConsumed) >> 1) >> (31-nbBits)\<close>. A shift of
  a 32-bit value by a negative count or by 32 and more is \<open>Undefined\<close>.
\<close>

definition FSE_readBits ::
  "bitContainer_backward_t \<Rightarrow> int \<Rightarrow> fse_error + (u32 \<times> bitContainer_backward_t)" where
  "FSE_readBits bitC n =
     (if 0 \<le> bitsConsumed bitC \<and> bitsConsumed bitC < 32 \<and> 0 \<le> 31 - n \<and> 31 - n < 32
      then Inr (drop_bit (nat (31 - n))
                  (drop_bit 1 (push_bit (nat (bitsConsumed bitC)) (bitContainer bitC))),
                bitC\<lparr>bitsConsumed := bitsConsumed bitC + n\<rparr>)
      else Inl Undefined)"

text \<open>One \<^verbatim>\<open>*state = FSE_readBits(bitC, tableLog); FSE_updateBitStream(bitC, p);\<close>\<close>

definition init_state ::
  "byte list \<Rightarrow> int \<Rightarrow> bitContainer_backward_t \<Rightarrow> int \<Rightarrow>
   fse_error + (u32 \<times> bitContainer_backward_t \<times> int)" where
  "init_state mem tableLog bitC ip =
     ebind (FSE_readBits bitC tableLog) (\<lambda>(state, bitC).
        ebind (FSE_updateBitStream mem bitC ip) (\<lambda>(bitC, ip). Inr (state, bitC, ip)))"

text \<open>
  \<^verbatim>\<open>FSE_initDecompressionStream_generic\<close>. The offset \<open>p\<close> is the start of the stream in
  the buffer. The result \<open>None\<close> is the returned \<^verbatim>\<open>NULL\<close>; otherwise it is \<^verbatim>\<open>iend\<close>, the
  new \<^verbatim>\<open>*p\<close>, the bit container, \<^verbatim>\<open>*nbStates\<close>, \<^verbatim>\<open>*state1\<close> and \<^verbatim>\<open>*state2\<close>, which is
  written only when there are two states or more.
\<close>

definition FSE_initDecompressionStream_generic ::
  "byte list \<Rightarrow> int \<Rightarrow> int \<Rightarrow> int \<Rightarrow> bool \<Rightarrow>
   fse_error + (int \<times> int \<times> bitContainer_backward_t \<times> int \<times> u32 \<times> u32 option) option" where
  "FSE_initDecompressionStream_generic mem p tableLog maxCompressedSize safe =
     ebind (load32i mem p) (\<lambda>descriptor.
       let nbStates = uint (drop_bit 30 descriptor) + 1;
           descriptor = descriptor AND 0x3FFFFFFF;
           consumed = uint (descriptor AND 7);
           descriptor = drop_bit 3 descriptor;
           iend = p + uint descriptor
       in if safe \<and> iend > p + maxCompressedSize then Inr None
          else let ip = iend - 4
               in ebind (load32i mem ip) (\<lambda>w.
                  ebind (init_state mem tableLog \<lparr>bitContainer = w, bitsConsumed = consumed\<rparr> ip)
                    (\<lambda>(state1, bitC, ip).
                  ebind (if nbStates \<ge> 2
                         then ebind (init_state mem tableLog bitC ip)
                                (\<lambda>(state2, bitC, ip). Inr (Some state2, bitC, ip))
                         else Inr (None, bitC, ip)) (\<lambda>(state2, bitC, ip).
                  ebind (if nbStates \<ge> 3
                         then ebind (init_state mem tableLog bitC ip)
                                (\<lambda>(state3, bitC, ip). Inr (bitC, ip))
                         else Inr (bitC, ip)) (\<lambda>(bitC, ip).
                  ebind (if nbStates \<ge> 4
                         then ebind (init_state mem tableLog bitC ip)
                                (\<lambda>(state4, bitC, ip). Inr (bitC, ip))
                         else Inr (bitC, ip)) (\<lambda>(bitC, ip).
                  Inr (Some (iend, ip, bitC, nbStates, state1, state2))))))))"

text \<open>\<^verbatim>\<open>BYTE FSE_decodeSymbol(U32* state, bitContainer_backward_t* bitC, const void* DTable)\<close>\<close>

definition FSE_decodeSymbol ::
  "u32 \<Rightarrow> bitContainer_backward_t \<Rightarrow> FSE_decode_t list \<Rightarrow>
   fse_error + (byte \<times> u32 \<times> bitContainer_backward_t)" where
  "FSE_decodeSymbol state bitC decodeTable =
     (if unat state < length decodeTable
      then let e = decodeTable ! unat state
           in ebind (FSE_readBits bitC (uint (nbBits e))) (\<lambda>(rest, bitC).
                 Inr (symbol e, ucast (newState e) + rest, bitC))
      else Inl OutOfBounds)"

text \<open>
  The state of the two decoding loops: the bytes written to \<^verbatim>\<open>dest\<close>, the offset
  \<^verbatim>\<open>ip\<close>, the bit container and the two states. A byte is stored at
  \<^verbatim>\<open>dest[0..originalSize)\<close> only.
\<close>

record decode_state =
  dOut :: "byte list"
  dIp :: int
  dBitC :: bitContainer_backward_t
  dState1 :: u32
  dState2 :: "u32 option"

definition put_byte :: "int \<Rightarrow> byte \<Rightarrow> decode_state \<Rightarrow> fse_error + decode_state" where
  "put_byte originalSize b st =
     (if int (length (dOut st)) < originalSize then Inr (st\<lparr>dOut := dOut st @ [b]\<rparr>)
      else Inl OutOfBounds)"

text \<open>\<^verbatim>\<open>*op++ = FSE_decodeSymbol(&state1, &bitC, DTable);\<close>\<close>

definition decode1 :: "int \<Rightarrow> FSE_decode_t list \<Rightarrow> decode_state \<Rightarrow> fse_error + decode_state" where
  "decode1 originalSize decodeTable st =
     ebind (FSE_decodeSymbol (dState1 st) (dBitC st) decodeTable) (\<lambda>(b, state1, bitC).
       put_byte originalSize b (st\<lparr>dState1 := state1, dBitC := bitC\<rparr>))"

text \<open>\<^verbatim>\<open>*op++ = FSE_decodeSymbol(&state2, &bitC, DTable);\<close>\<close>

definition decode2 :: "int \<Rightarrow> FSE_decode_t list \<Rightarrow> decode_state \<Rightarrow> fse_error + decode_state" where
  "decode2 originalSize decodeTable st =
     (case dState2 st of
        None \<Rightarrow> Inl Undefined
      | Some state2 \<Rightarrow>
          ebind (FSE_decodeSymbol state2 (dBitC st) decodeTable) (\<lambda>(b, state2, bitC).
            put_byte originalSize b (st\<lparr>dState2 := Some state2, dBitC := bitC\<rparr>)))"

definition update :: "byte list \<Rightarrow> decode_state \<Rightarrow> fse_error + decode_state" where
  "update mem st =
     ebind (FSE_updateBitStream mem (dBitC st) (dIp st)) (\<lambda>(bitC, ip).
       Inr (st\<lparr>dBitC := bitC, dIp := ip\<rparr>))"

text \<open>Every decoded symbol is one more byte of output, and an update leaves the output as
  it is; this is what bounds the two loops below.\<close>

lemma put_byte_length: "put_byte originalSize b st = Inr st' \<Longrightarrow> length (dOut st') = Suc (length (dOut st))"
  by (auto simp: put_byte_def split: if_splits)

lemma decode1_length: "decode1 originalSize decodeTable st = Inr st' \<Longrightarrow> length (dOut st') = Suc (length (dOut st))"
  by (auto simp: decode1_def ebind_def split: sum.splits dest!: put_byte_length)

lemma decode2_length: "decode2 originalSize decodeTable st = Inr st' \<Longrightarrow> length (dOut st') = Suc (length (dOut st))"
  by (auto simp: decode2_def ebind_def split: sum.splits option.splits dest!: put_byte_length)

lemma update_out: "update mem st = Inr st' \<Longrightarrow> dOut st' = dOut st"
  by (auto simp: update_def ebind_def split: sum.splits)

text \<open>
  The ``hot loop'', which runs while \<^verbatim>\<open>op<olimit\<close> and, in safe mode, \<^verbatim>\<open>ip>=compressed\<close>.
  The test \<^verbatim>\<open>FSE_MAX_TABLELOG*2+7 > sizeof(U32)*8\<close> is false, so the container is
  updated once a round.
\<close>

function decode_hot_loop ::
  "byte list \<Rightarrow> int \<Rightarrow> int \<Rightarrow> FSE_decode_t list \<Rightarrow> bool \<Rightarrow> int \<Rightarrow> int \<Rightarrow> decode_state \<Rightarrow>
   fse_error + decode_state" where
  "decode_hot_loop mem compressed originalSize decodeTable safe nbStates olimit st =
     (if int (length (dOut st)) < olimit \<and> (safe \<longrightarrow> dIp st \<ge> compressed)
      then ebind (if nbStates = 2 then decode2 originalSize decodeTable st else Inr st) (\<lambda>st1.
           ebind (decode1 originalSize decodeTable st1) (\<lambda>st2.
           ebind (update mem st2) (\<lambda>st3.
             decode_hot_loop mem compressed originalSize decodeTable safe nbStates olimit st3)))
      else Inr st)"
  by pat_completeness auto
termination
proof (relation "measure (\<lambda>(mem, compressed, originalSize, decodeTable, safe, nbStates, olimit, st).
        nat (olimit - int (length (dOut st))))")
  fix mem :: "byte list" and compressed originalSize :: int and decodeTable :: "FSE_decode_t list"
    and safe :: bool and nbStates olimit :: int and st st1 st2 st3 :: decode_state
  assume c: "int (length (dOut st)) < olimit \<and> (safe \<longrightarrow> compressed \<le> dIp st)"
    and 1: "(if nbStates = 2 then decode2 originalSize decodeTable st else Inr st) = Inr st1"
    and 2: "decode1 originalSize decodeTable st1 = Inr st2"
    and 3: "update mem st2 = Inr st3"
  have "length (dOut st) \<le> length (dOut st1)"
    using 1 by (auto dest: decode2_length split: if_splits)
  moreover have "length (dOut st2) = Suc (length (dOut st1))"
    using 2 by (rule decode1_length)
  moreover have "dOut st3 = dOut st2"
    using 3 by (rule update_out)
  ultimately show "((mem, compressed, originalSize, decodeTable, safe, nbStates, olimit, st3),
                    (mem, compressed, originalSize, decodeTable, safe, nbStates, olimit, st))
        \<in> measure (\<lambda>(mem, compressed, originalSize, decodeTable, safe, nbStates, olimit, st).
               nat (olimit - int (length (dOut st))))"
    using c by simp
qed simp

declare decode_hot_loop.simps [simp del]

text \<open>The loop ``last bytes'', which runs while \<^verbatim>\<open>op<oend\<close> and, in safe mode,
  \<^verbatim>\<open>ip>=compressed\<close>.\<close>

function decode_last_loop ::
  "byte list \<Rightarrow> int \<Rightarrow> int \<Rightarrow> FSE_decode_t list \<Rightarrow> bool \<Rightarrow> int \<Rightarrow> decode_state \<Rightarrow>
   fse_error + decode_state" where
  "decode_last_loop mem compressed originalSize decodeTable safe oend st =
     (if int (length (dOut st)) < oend \<and> (safe \<longrightarrow> dIp st \<ge> compressed)
      then ebind (decode1 originalSize decodeTable st) (\<lambda>st2.
           ebind (update mem st2) (\<lambda>st3.
             decode_last_loop mem compressed originalSize decodeTable safe oend st3))
      else Inr st)"
  by pat_completeness auto
termination
proof (relation "measure (\<lambda>(mem, compressed, originalSize, decodeTable, safe, oend, st).
        nat (oend - int (length (dOut st))))")
  fix mem :: "byte list" and compressed originalSize :: int and decodeTable :: "FSE_decode_t list"
    and safe :: bool and oend :: int and st st2 st3 :: decode_state
  assume c: "int (length (dOut st)) < oend \<and> (safe \<longrightarrow> compressed \<le> dIp st)"
    and 2: "decode1 originalSize decodeTable st = Inr st2"
    and 3: "update mem st2 = Inr st3"
  have "length (dOut st2) = Suc (length (dOut st))"
    using 2 by (rule decode1_length)
  moreover have "dOut st3 = dOut st2"
    using 3 by (rule update_out)
  ultimately show "((mem, compressed, originalSize, decodeTable, safe, oend, st3),
                    (mem, compressed, originalSize, decodeTable, safe, oend, st))
        \<in> measure (\<lambda>(mem, compressed, originalSize, decodeTable, safe, oend, st).
               nat (oend - int (length (dOut st))))"
    using c by simp
qed simp

declare decode_last_loop.simps [simp del]

text \<open>
  \<^verbatim>\<open>FSE_decompressStreams_usingDTable_generic\<close>. The buffer \<open>mem\<close> holds the whole frame
  and \<open>compressed\<close> is the offset of the stream in it. The result is the returned length
  and the bytes written to \<^verbatim>\<open>dest\<close>.
\<close>

definition FSE_decompressStreams_usingDTable_generic ::
  "int \<Rightarrow> byte list \<Rightarrow> int \<Rightarrow> int \<Rightarrow> FSE_decode_t list \<Rightarrow> int \<Rightarrow> bool \<Rightarrow>
   fse_error + (int \<times> byte list)" where
  "FSE_decompressStreams_usingDTable_generic originalSize mem compressed maxCompressedSize
       decodeTable tableLog safe =
     ebind (FSE_initDecompressionStream_generic mem compressed tableLog maxCompressedSize safe)
       (\<lambda>r. case r of
          None \<Rightarrow> Inl ErrorCode
        | Some (iend, ip, bitC, nbStates, state1, state2) \<Rightarrow>
            let oend = originalSize - nbStates;
                olimit = oend - c_rem (originalSize - nbStates) nbStates;
                st = \<lparr>dOut = [], dIp = ip, dBitC = bitC, dState1 = state1, dState2 = state2\<rparr>
            in ebind (decode_hot_loop mem compressed originalSize decodeTable safe nbStates olimit st)
                 (\<lambda>st.
               ebind (decode_last_loop mem compressed originalSize decodeTable safe oend st) (\<lambda>st.
               ebind (if nbStates \<ge> 2
                      then (case dState2 st of
                              None \<Rightarrow> Inl Undefined
                            | Some state2 \<Rightarrow> put_byte originalSize (ucast state2) st)
                      else Inr st) (\<lambda>st.
               ebind (put_byte originalSize (ucast (dState1 st)) st) (\<lambda>st.
                 if dIp st \<noteq> compressed \<or> bitsConsumed (dBitC st) \<noteq> 0 then Inl ErrorCode
                 else Inr (iend - dIp st, dOut st))))))"

text \<open>\<^verbatim>\<open>U32 FSE_getNbStates(const void* buffer)\<close>\<close>

definition FSE_getNbStates :: "byte list \<Rightarrow> int \<Rightarrow> fse_error + u32" where
  "FSE_getNbStates mem buffer = ebind (load32i mem buffer) (\<lambda>descriptor. Inr (drop_bit 30 descriptor + 1))"

text \<open>\<^verbatim>\<open>FSE_decompress_usingDTable_generic\<close>\<close>

definition FSE_decompress_usingDTable_generic ::
  "int \<Rightarrow> byte list \<Rightarrow> int \<Rightarrow> int \<Rightarrow> FSE_decode_t list \<Rightarrow> int \<Rightarrow> bool \<Rightarrow>
   fse_error + (int \<times> byte list)" where
  "FSE_decompress_usingDTable_generic originalSize mem compressed maxCompressedSize decodeTable
       tableLog safe =
     ebind (FSE_getNbStates mem compressed) (\<lambda>nbStates.
       if nbStates = 2
       then FSE_decompressStreams_usingDTable_generic originalSize mem compressed
              maxCompressedSize decodeTable tableLog safe
       else if nbStates = 1
       then FSE_decompressStreams_usingDTable_generic originalSize mem compressed
              maxCompressedSize decodeTable tableLog safe
       else Inl ErrorCode)"

definition FSE_decompress_usingDTable ::
  "int \<Rightarrow> byte list \<Rightarrow> int \<Rightarrow> FSE_decode_t list \<Rightarrow> int \<Rightarrow> fse_error + (int \<times> byte list)" where
  "FSE_decompress_usingDTable originalSize mem compressed decodeTable tableLog =
     FSE_decompress_usingDTable_generic originalSize mem compressed 0 decodeTable tableLog False"

definition FSE_decompress_usingDTable_safe ::
  "int \<Rightarrow> byte list \<Rightarrow> int \<Rightarrow> int \<Rightarrow> FSE_decode_t list \<Rightarrow> int \<Rightarrow>
   fse_error + (int \<times> byte list)" where
  "FSE_decompress_usingDTable_safe originalSize mem compressed maxCompressedSize decodeTable tableLog =
     FSE_decompress_usingDTable_generic originalSize mem compressed maxCompressedSize decodeTable
       tableLog True"

section \<open>Block decompression: \<^verbatim>\<open>FSE_decompress_generic\<close>\<close>

text \<open>\<^verbatim>\<open>memcpy (out, in+1, osize)\<close> and \<^verbatim>\<open>memset (out, symbol, osize)\<close>; a negative size
  is \<open>Undefined\<close>.\<close>

definition FSE_decompressRaw :: "int \<Rightarrow> byte list \<Rightarrow> fse_error + (int \<times> byte list)" where
  "FSE_decompressRaw osize inp =
     (if osize < 0 then Inl Undefined
      else if 1 + nat osize \<le> length inp then Inr (osize + 1, take (nat osize) (drop 1 inp))
      else Inl OutOfBounds)"

definition FSE_decompressSingleSymbol :: "int \<Rightarrow> byte \<Rightarrow> fse_error + (int \<times> byte list)" where
  "FSE_decompressSingleSymbol osize symb =
     (if osize < 0 then Inl Undefined else Inr (2, replicate (nat osize) symb))"

text \<open>
  \<^verbatim>\<open>FSE_decompress_generic (unsigned char* dest, int originalSize, const void* compressed,
  int maxCompressedSize, int safe)\<close>. The buffer \<open>mem\<close> is the memory readable from
  \<^verbatim>\<open>compressed\<close> on; \<open>maxCompressedSize\<close> is a separate argument. The local
  \<^verbatim>\<open>counting\<close> has 256 entries without initial contents, which \<^verbatim>\<open>FSE_readHeader\<close>
  overwrites from the first on; here they start as 0. The result is the returned length
  and the bytes written to \<^verbatim>\<open>dest\<close>.
\<close>

definition FSE_decompress_generic ::
  "int \<Rightarrow> byte list \<Rightarrow> int \<Rightarrow> bool \<Rightarrow> (fse_error + (int \<times> byte list)) option" where
  "FSE_decompress_generic originalSize mem maxCompressedSize safe =
     (if safe \<and> maxCompressedSize < 2 then Some (Inl ErrorCode)
      else if length mem < 1 then Some (Inl OutOfBounds)
      else let headerId = (mem ! 0) AND 3
           in if mem ! 0 = 0 then Some (FSE_decompressRaw originalSize mem)
              else if mem ! 0 = 1
              then (if length mem < 2 then Some (Inl OutOfBounds)
                    else Some (FSE_decompressSingleSymbol originalSize (mem ! 1)))
              else if headerId \<noteq> 2 then Some (Inl ErrorCode)
              else (case FSE_readHeader (replicate (nat FSE_MAX_NB_SYMBOLS_CHAR) 0) mem of
                      None \<Rightarrow> None
                    | Some (Inl e) \<Rightarrow> Some (Inl e)
                    | Some (Inr (errorCode, counting, nbSymbols, tableLog)) \<Rightarrow>
                        Some (let ip = errorCode
                              in ebind (FSE_buildDTable counting nbSymbols tableLog) (\<lambda>decodeTable.
                                 ebind (if safe
                                        then FSE_decompress_usingDTable_safe originalSize mem ip
                                               maxCompressedSize decodeTable tableLog
                                        else FSE_decompress_usingDTable originalSize mem ip
                                               decodeTable tableLog) (\<lambda>(errorCode, out).
                                   Inr (ip + errorCode, out))))))"

definition FSE_decompress :: "int \<Rightarrow> byte list \<Rightarrow> (fse_error + (int \<times> byte list)) option" where
  "FSE_decompress originalSize mem = FSE_decompress_generic originalSize mem 0 False"

definition FSE_decompress_safe ::
  "int \<Rightarrow> byte list \<Rightarrow> int \<Rightarrow> (fse_error + (int \<times> byte list)) option" where
  "FSE_decompress_safe originalSize mem maxCompressedSize =
     FSE_decompress_generic originalSize mem maxCompressedSize True"


section \<open>Auxiliary notions used in the proofs about spreading\<close>

text \<open>
  The writes of the spreader, apart from the loops that issue them: \<open>write_seq T step p vs S\<close>
  stores the values \<open>vs\<close> in \<open>S\<close>, the first at the cursor \<open>p\<close>, each next one \<open>step\<close> further
  modulo \<open>T\<close>; \<open>spread_vals N ss\<close> is the sequence of the values written for the symbols \<open>ss\<close>,
  each symbol as many times as its weight.
\<close>

fun write_seq :: "int \<Rightarrow> int \<Rightarrow> int \<Rightarrow> byte list \<Rightarrow> byte option list \<Rightarrow> byte option list" where
  "write_seq T step p [] S = S"
| "write_seq T step p (v # vs) S = write_seq T step ((p + step) mod T) vs (S[nat p := Some v])"

definition spread_vals :: "u32 list \<Rightarrow> nat list \<Rightarrow> byte list" where
  "spread_vals N ss = concat (map (\<lambda>s. replicate (unat (N ! s)) (word_of_int (int s))) ss)"

section \<open>Auxiliary notions used in the proofs about the header\<close>

text \<open>
  Both codecs are followed through the bits they exchange. A sequence of bits is the number
  whose binary digits they are, the first bit lowest.
\<close>

text \<open>The number that a list of bytes holds, the first byte lowest.\<close>

fun bytes_val :: "byte list \<Rightarrow> nat" where
  "bytes_val [] = 0"
| "bytes_val (b # bs) = unat b + 256 * bytes_val bs"

text \<open>
  The bits that the writer has produced so far, as a number: the bytes stored and, above them,
  the stream register.
\<close>

definition wv :: "wh_state \<Rightarrow> nat" where
  "wv st = bytes_val (wOut st) + 2 ^ (8 * length (wOut st)) * unat (wBitStream st)"

text \<open>The number of bits that the writer has produced so far.\<close>

definition wB :: "wh_state \<Rightarrow> nat" where
  "wB st = 8 * length (wOut st) + nat (wBitCount st)"

text \<open>
  Between two steps of the writer the register holds at most 16 bits and nothing above them.
\<close>

definition wf_w :: "wh_state \<Rightarrow> bool" where
  "wf_w st \<longleftrightarrow> 0 \<le> wBitCount st \<and> wBitCount st \<le> 16 \<and> unat (wBitStream st) < 2 ^ nat (wBitCount st)"

text \<open>
  \<open>wstep st st' c l\<close>: from \<open>st\<close> to \<open>st'\<close> the writer has
  appended the \<open>l\<close> bits of the number \<open>c\<close>.
\<close>

definition wstep :: "wh_state \<Rightarrow> wh_state \<Rightarrow> nat \<Rightarrow> nat \<Rightarrow> bool" where
  "wstep st st' c len \<longleftrightarrow> wv st' = wv st + 2 ^ wB st * c \<and> wB st' = wB st + len \<and> c < 2 ^ len"

text \<open>
  Two states of the writer with the same position in the counts and the same budget.
\<close>

definition wsame :: "wh_state \<Rightarrow> wh_state \<Rightarrow> bool" where
  "wsame st st' \<longleftrightarrow> wCharnum st' = wCharnum st \<and> wPrevious0 st' = wPrevious0 st \<and>
     wRemaining st' = wRemaining st \<and> wThreshold st' = wThreshold st \<and> wNbBits st' = wNbBits st"

text \<open>The number made of \<open>n\<close> bits 1.\<close>

definition ones :: "nat \<Rightarrow> nat" where
  "ones n = 2 ^ n - 1"

text \<open>
  The number of bits of the code of a run of \<open>z\<close> zero counts: 16 for every 24
  zeros, 2 for every 3 of the rest, and 2 for the remainder.
\<close>

definition zlen :: "nat \<Rightarrow> nat" where
  "zlen z = 16 * (z div 24) + 2 * ((z mod 24) div 3) + 2"

text \<open>
  The code of a run of \<open>z\<close> zero counts: bits 1 up to the last two bits, which
  hold the remainder.
\<close>

definition zcode :: "nat \<Rightarrow> nat" where
  "zcode z = ones (16 * (z div 24) + 2 * ((z mod 24) div 3)) +
             2 ^ (16 * (z div 24) + 2 * ((z mod 24) div 3)) * (z mod 3)"

text \<open>
  The value \<^verbatim>\<open>max = (2*threshold-1)-remaining\<close> of both codecs.
\<close>

definition cmax :: "int \<Rightarrow> int \<Rightarrow> int" where
  "cmax th rem = 2 * th - 1 - rem"

text \<open>The number written for a count.\<close>

definition ccode :: "int \<Rightarrow> int \<Rightarrow> int \<Rightarrow> int" where
  "ccode th rem cnt = (if cnt \<ge> th then cnt + cmax th rem else cnt)"

text \<open>The number of bits written for a count.\<close>

definition clen :: "int \<Rightarrow> int \<Rightarrow> int \<Rightarrow> int \<Rightarrow> int" where
  "clen nb th rem cnt = nb - (if ccode th rem cnt < cmax th rem then 1 else 0)"

text \<open>
  The bits of the buffer from the bit position \<open>p\<close> on, as a number.
\<close>

definition strm :: "byte list \<Rightarrow> nat \<Rightarrow> nat" where
  "strm mem p = drop_bit p (bytes_val mem)"

text \<open>The bit position of the reader in the buffer.\<close>

definition rpos :: "rh_state \<Rightarrow> nat" where
  "rpos rs = 8 * rIp rs + nat (rBitCount rs)"

text \<open>
  The register of the reader holds the four bytes at \<^verbatim>\<open>ip\<close>, shifted by
  \<^verbatim>\<open>bitCount\<close>.
\<close>

definition rsync :: "byte list \<Rightarrow> rh_state \<Rightarrow> bool" where
  "rsync mem rs \<longleftrightarrow> 0 \<le> rBitCount rs \<and> rIp rs + 4 \<le> length mem \<and>
     unat (rBitStream rs) = drop_bit (nat (rBitCount rs)) (take_bit 32 (strm mem (8 * rIp rs)))"

text \<open>
  Two states of the reader with the same position in the counts, the same budget and the same
  array.
\<close>

definition rsame :: "rh_state \<Rightarrow> rh_state \<Rightarrow> bool" where
  "rsame rs rs' \<longleftrightarrow> rCharnum rs' = rCharnum rs \<and> rPrevious0 rs' = rPrevious0 rs \<and>
     rRemaining rs' = rRemaining rs \<and> rThreshold rs' = rThreshold rs \<and> rNbBits rs' = rNbBits rs \<and>
     rCounter rs' = rCounter rs"

text \<open>
  While counts remain, \<open>threshold\<close> is the power of two
  \<open>2^(nbBits-1)\<close> with \<open>threshold \<le> remaining < 2 * threshold\<close>.
\<close>

definition hinv :: "wh_state \<Rightarrow> bool" where
  "hinv st \<longleftrightarrow> 1 \<le> wNbBits st \<and> wNbBits st \<le> 13 \<and> wThreshold st = 2 ^ nat (wNbBits st - 1) \<and>
     wThreshold st \<le> wRemaining st \<and> wRemaining st < 2 * wThreshold st"

text \<open>
  The invariant of the loop of the writer on the counts \<open>N\<close>:
  \<open>remaining\<close> is the sum of the counts not yet written.
\<close>

definition winv :: "u32 list \<Rightarrow> wh_state \<Rightarrow> bool" where
  "winv N st \<longleftrightarrow> wf_w st \<and> wCharnum st \<le> length N \<and>
     wRemaining st = int (sum_list (map unat (drop (wCharnum st) N))) \<and>
     (0 < wRemaining st \<longrightarrow> hinv st)"

text \<open>
  What holds of the writer after the count that exhausts \<open>remaining\<close>.
\<close>

definition wfin :: "u32 list \<Rightarrow> wh_state \<Rightarrow> bool" where
  "wfin N st \<longleftrightarrow> 0 < wCharnum st \<and> N ! (wCharnum st - 1) \<noteq> 0 \<and> wNbBits st \<le> 12"

text \<open>
  The reader \<open>rs\<close> on the buffer \<open>mem\<close> has read what the writer
  \<open>st\<close> has written: the same bit position, the same position in the counts, the
  same budget, and the counts read so far are those of \<open>N\<close>.
\<close>

definition sync :: "u32 list \<Rightarrow> byte list \<Rightarrow> wh_state \<Rightarrow> rh_state \<Rightarrow> bool" where
  "sync N mem st rs \<longleftrightarrow> rsync mem rs \<and> rpos rs = wB st \<and> rBitCount rs \<le> 7 \<and>
     rCharnum rs = wCharnum st \<and> rPrevious0 rs = wPrevious0 st \<and> rRemaining rs = wRemaining st \<and>
     rThreshold rs = wThreshold st \<and> rNbBits rs = wNbBits st \<and>
     (\<forall>i<wCharnum st. rCounter rs ! i = N ! i)"

text \<open>
  \<open>sim N st st' f\<close>: the writer goes from \<open>st\<close> to \<open>st'\<close>
  by appending some bits, and on every buffer that holds these bits at the position of
  \<open>st\<close> and is readable for 4 bytes past \<open>st'\<close>, the step
  \<open>f\<close> takes a reader in step with \<open>st\<close> to one in step with
  \<open>st'\<close>.
\<close>

definition sim ::
  "u32 list \<Rightarrow> wh_state \<Rightarrow> wh_state \<Rightarrow> (byte list \<Rightarrow> rh_state \<Rightarrow> (fse_error + rh_state) option) \<Rightarrow> bool"
  where
  "sim N st st' f \<longleftrightarrow> (\<exists>c l. wstep st st' c l \<and>
     (\<forall>mem rs. sync N mem st rs \<and> take_bit l (strm mem (wB st)) = c \<and>
        wB st' div 8 + 4 \<le> length mem \<and> length N \<le> length (rCounter rs) \<longrightarrow>
        (\<exists>rs'. f mem rs = Some (Inr rs') \<and> sync N mem st' rs' \<and>
           length (rCounter rs') = length (rCounter rs))))"

section \<open>Properties of symbol counting\<close>

lemma count_incr_length [simp]: "length (count_incr c b) = length c"
  by (simp add: count_incr_def)

lemma unat_byte_less: "unat (b :: byte) < 256"
  using unsigned_less [of b, where 'a = nat] by simp

lemma byte_of_nat_eq_iff: "i < 256 \<Longrightarrow> (of_nat i = (b :: byte)) = (unat b = i)"
  by (auto simp: unat_of_nat)

lemma count_incr_nth:
  "i < length c \<Longrightarrow> unat b < length c \<Longrightarrow> count_incr c b ! i = c ! i + (if unat b = i then 1 else 0)"
  by (auto simp: count_incr_def)

lemma occ_Cons: "i < 256 \<Longrightarrow> occ (b # xs) i = (if unat b = i then 1 else 0) + occ xs i"
  by (auto simp: occ_def unat_of_nat)

lemma occ_Nil [simp]: "occ [] i = 0"
  by (simp add: occ_def)

lemma count_step_tot:
  assumes "count_wf (c1, c2, c3, c4)" "i < 256"
  shows "count_wf (count_incr c1 a, count_incr c2 b, count_incr c3 c, count_incr c4 d)"
    and "count_tot (count_incr c1 a, count_incr c2 b, count_incr c3 c, count_incr c4 d) i
         = count_tot (c1, c2, c3, c4) i + (occ [a, b, c, d] i)"
  using assms unat_byte_less [of a] unat_byte_less [of b] unat_byte_less [of c] unat_byte_less [of d]
  by (simp_all add: count_wf_def count_tot_def count_incr_nth occ_Cons)

lemma occ_4: "i < 256 \<Longrightarrow> occ (a # b # c # d # rest) i = occ [a, b, c, d] i + occ rest i"
  by (simp add: occ_Cons)

lemma count_loop4_inv:
  "count_wf cs \<Longrightarrow> count_loop4 cs src = (cs', rest) \<Longrightarrow> i < 256 \<Longrightarrow>
   count_wf cs' \<and> count_tot cs' i + occ rest i = count_tot cs i + occ src i"
proof (induction cs src rule: count_loop4.induct)
  case (1 c1 c2 c3 c4 a b c d rest')
  have wf: "count_wf (count_incr c1 a, count_incr c2 b, count_incr c3 c, count_incr c4 d)"
    using count_step_tot(1) [OF "1.prems"(1) "1.prems"(3)] .
  have run: "count_loop4 (count_incr c1 a, count_incr c2 b, count_incr c3 c, count_incr c4 d) rest' = (cs', rest)"
    using "1.prems"(2) by simp
  from "1.IH" [OF wf run "1.prems"(3)]
  show ?case
    using count_step_tot(2) [OF "1.prems"(1) "1.prems"(3), of a b c d] occ_4 [OF "1.prems"(3), of a b c d rest']
    by (simp add: algebra_simps)
qed simp_all

lemma foldl_count_incr_inv:
  "length c1 = 256 \<Longrightarrow> i < 256 \<Longrightarrow>
   length (foldl count_incr c1 rest) = 256 \<and> foldl count_incr c1 rest ! i = c1 ! i + occ rest i"
proof (induction rest arbitrary: c1)
  case (Cons b rest)
  then show ?case using unat_byte_less [of b]
    by (simp add: count_incr_nth occ_Cons)
qed simp

lemma count_trim_found:
  "\<exists>j<n. cnt ! j \<noteq> 0 \<Longrightarrow>
   \<exists>m. count_trim cnt n = Inr m \<and> 0 < m \<and> m \<le> n \<and> cnt ! (m - 1) \<noteq> 0 \<and>
       (\<forall>j. m \<le> j \<and> j < n \<longrightarrow> cnt ! j = 0)"
proof (induction n)
  case (Suc n)
  show ?case
  proof (cases "cnt ! n = 0")
    case True
    with Suc.prems have "\<exists>j<n. cnt ! j \<noteq> 0"
      by (metis less_Suc_eq)
    from Suc.IH [OF this] obtain m where m: "count_trim cnt n = Inr m" "0 < m" "m \<le> n"
      "cnt ! (m - 1) \<noteq> 0" "\<forall>j. m \<le> j \<and> j < n \<longrightarrow> cnt ! j = 0"
      by blast
    then show ?thesis using True
      by (auto simp: less_Suc_eq)
  next
    case False
    then show ?thesis by auto
  qed
qed simp

lemma unat_occ: "length src < 2 ^ 32 \<Longrightarrow> unat (occ src i) = count_list src (of_nat i)"
  using count_le_length [of src "of_nat i"]
  by (simp add: occ_def unat_of_nat)

lemma FSE_count_run:
  assumes src: "src \<noteq> []" and cap: "0 \<le> cap" "cap \<le> 256"
  shows "FSE_count src cap =
    (let n = nat (if cap = 0 then 256 else cap); cnt = map (occ src) [0 ..< n]
     in case count_trim cnt n of Inl e \<Rightarrow> Inl e | Inr m \<Rightarrow> Inr (int m, cnt))"
proof -
  define zeros where "zeros = replicate 256 (0 :: u32)"
  obtain c1 c2 c3 c4 rest where run: "count_loop4 (zeros, zeros, zeros, zeros) src = ((c1, c2, c3, c4), rest)"
    by (metis prod_cases4 surj_pair)
  have wf0: "count_wf (zeros, zeros, zeros, zeros)"
    by (simp add: count_wf_def zeros_def)
  have tot: "foldl count_incr c1 rest ! i + c2 ! i + c3 ! i + c4 ! i = occ src i" if "i < 256" for i
  proof -
    from count_loop4_inv [OF wf0 run that]
    have wf: "count_wf (c1, c2, c3, c4)"
      and eq: "count_tot (c1, c2, c3, c4) i + occ rest i = count_tot (zeros, zeros, zeros, zeros) i + occ src i"
      by simp_all
    have "length c1 = 256" using wf by (simp add: count_wf_def)
    from foldl_count_incr_inv [OF this that, of rest] eq that
    show ?thesis by (simp add: count_tot_def zeros_def algebra_simps)
  qed
  define n where "n = nat (if cap = 0 then 256 else cap)"
  have n: "n \<le> 256" using cap by (auto simp: n_def)
  have map_eq: "map (\<lambda>i. foldl count_incr c1 rest ! i + c2 ! i + c3 ! i + c4 ! i) [0 ..< n] = map (occ src) [0 ..< n]"
    using n tot by simp
  have "FSE_count src cap =
      (case count_trim (map (\<lambda>i. foldl count_incr c1 rest ! i + c2 ! i + c3 ! i + c4 ! i) [0 ..< n]) n of
         Inl e \<Rightarrow> Inl e
       | Inr m \<Rightarrow> Inr (int m, map (\<lambda>i. foldl count_incr c1 rest ! i + c2 ! i + c3 ! i + c4 ! i) [0 ..< n]))"
    using src cap run
    by (simp add: FSE_count_def FSE_MAX_NB_SYMBOLS_CHAR_def FSE_MAX_NB_SYMBOLS_def Let_def
        zeros_def [symmetric] n_def cong: sum.case_cong)
  then show ?thesis
    unfolding map_eq by (simp add: Let_def n_def cong: sum.case_cong)
qed

text \<open>
  Claim C6, as amended. \<^verbatim>\<open>FSE_count\<close> returns its error code whenever the source is empty
  or the cap is above 256. For a non-empty source of fewer than \<open>2^31\<close> bytes and a cap in
  \<open>[0, 256]\<close> (the cap 0 standing for 256) below which at least one byte of the source lies,
  it does not fail: it stores in \<open>count[0..cap)\<close> the number of occurrences of every symbol
  and returns the largest \<open>n\<close> with \<open>count[n-1] > 0\<close>, every entry from \<open>n\<close> on being zero.
  Nothing is said of the other inputs, on which the trimming loop leaves the array.
\<close>

theorem FSE_count_amended:
  "(src = [] \<or> 256 < cap \<longrightarrow> FSE_count src cap = Inl ErrorCode) \<and>
   (src \<noteq> [] \<and> length src < 2 ^ 31 \<and> 0 \<le> cap \<and> cap \<le> 256 \<and>
    (\<exists>b\<in>set src. uint b < (if cap = 0 then 256 else cap)) \<longrightarrow>
    (\<exists>n cnt. FSE_count src cap = Inr (n, cnt) \<and>
       int (length cnt) = (if cap = 0 then 256 else cap) \<and>
       (\<forall>i<length cnt. unat (cnt ! i) = count_list src (of_nat i)) \<and>
       0 < n \<and> n \<le> int (length cnt) \<and> cnt ! nat (n - 1) \<noteq> 0 \<and>
       (\<forall>j. nat n \<le> j \<and> j < length cnt \<longrightarrow> cnt ! j = 0)))"
proof (intro conjI impI)
  assume "src = [] \<or> 256 < cap"
  then show "FSE_count src cap = Inl ErrorCode"
    by (auto simp: FSE_count_def FSE_MAX_NB_SYMBOLS_CHAR_def FSE_MAX_NB_SYMBOLS_def Let_def)
next
  assume h: "src \<noteq> [] \<and> length src < 2 ^ 31 \<and> 0 \<le> cap \<and> cap \<le> 256 \<and>
    (\<exists>b\<in>set src. uint b < (if cap = 0 then 256 else cap))"
  define n where "n = nat (if cap = 0 then 256 else cap)"
  define cnt where "cnt = map (occ src) [0 ..< n]"
  have len: "length src < 2 ^ 32" using h by simp
  have n_int: "int n = (if cap = 0 then 256 else cap)" using h by (simp add: n_def)
  from h obtain b where b: "b \<in> set src" "uint b < (if cap = 0 then 256 else cap)" by blast
  have "uint b < int n" using b(2) unfolding n_int .
  moreover have "int (unat b) = uint b" by simp
  ultimately have bn: "unat b < n" by linarith
  have "count_list src b \<noteq> 0" using b(1) by (simp add: count_list_0_iff)
  then have "unat (occ src (unat b)) \<noteq> 0" using unat_occ [OF len, of "unat b"] by simp
  then have "cnt ! unat b \<noteq> 0" using bn by (auto simp: cnt_def)
  with bn have "\<exists>j<n. cnt ! j \<noteq> 0" by blast
  from count_trim_found [OF this] obtain m where m: "count_trim cnt n = Inr m" "0 < m" "m \<le> n"
    "cnt ! (m - 1) \<noteq> 0" "\<forall>j. m \<le> j \<and> j < n \<longrightarrow> cnt ! j = 0"
    by blast
  have run: "FSE_count src cap = Inr (int m, cnt)"
    using FSE_count_run [of src cap] h m(1) by (simp add: Let_def n_def cnt_def)
  have freq: "\<forall>i<length cnt. unat (cnt ! i) = count_list src (of_nat i)"
    using unat_occ [OF len] by (simp add: cnt_def)
  have lenc: "length cnt = n" by (simp add: cnt_def)
  have m1: "nat (int m - 1) = m - 1" using m(2) by simp
  show "\<exists>n cnt. FSE_count src cap = Inr (n, cnt) \<and>
       int (length cnt) = (if cap = 0 then 256 else cap) \<and>
       (\<forall>i<length cnt. unat (cnt ! i) = count_list src (of_nat i)) \<and>
       0 < n \<and> n \<le> int (length cnt) \<and> cnt ! nat (n - 1) \<noteq> 0 \<and>
       (\<forall>j. nat n \<le> j \<and> j < length cnt \<longrightarrow> cnt ! j = 0)"
    apply (rule exI [of _ "int m"], rule exI [of _ cnt])
    using run freq m n_int lenc m1 by simp
qed

text \<open>
  The amended claim C6 at an empty source, at the cap 257, and at the source \<open>[1, 0, 1]\<close> with
  the default cap.
\<close>

theorem FSE_count_amended_witness:
  "FSE_count [] 0 = Inl ErrorCode \<and> FSE_count [0] 257 = Inl ErrorCode \<and>
   (\<exists>n cnt. FSE_count [1, 0, 1] 0 = Inr (n, cnt) \<and> int (length cnt) = 256 \<and>
       (\<forall>i<length cnt. unat (cnt ! i) = count_list [1, 0, 1 :: byte] (of_nat i)) \<and>
       0 < n \<and> n \<le> int (length cnt) \<and> cnt ! nat (n - 1) \<noteq> 0 \<and>
       (\<forall>j. nat n \<le> j \<and> j < length cnt \<longrightarrow> cnt ! j = 0))"
  using FSE_count_amended [of "[]" 0] FSE_count_amended [of "[0]" 257]
    FSE_count_amended [of "[1, 0, 1]" 0]
  by simp

text \<open>
  Claim C6 as stated fails: on the source \<open>[0, 1]\<close> the function returns 2, which is not the
  smallest \<open>n\<close> with \<open>count[n-1] > 0\<close>, since \<open>count[1-1] = 1\<close>.
\<close>

theorem FSE_count_smallest_counterexample:
  "FSE_count [0, 1] 256 = Inr (2, 1 # 1 # replicate 254 0) \<and>
   (1 # 1 # replicate 254 (0 :: u32)) ! (1 - 1) \<noteq> 0 \<and> (1 :: int) < 2"
  by code_simp

section \<open>Properties of the normalization\<close>

lemma highbit_nat_bounds: "0 < v \<Longrightarrow> 2 ^ highbit_nat v \<le> v \<and> v < 2 ^ Suc (highbit_nat v)"
proof (induction v rule: highbit_nat.induct)
  case (1 n)
  show ?case
  proof (cases "n < 2")
    case True
    with "1.prems" have "n = 1" by simp
    then show ?thesis by (simp add: highbit_nat.simps)
  next
    case False
    then have "0 < n div 2" by simp
    from "1.IH" [OF False this] have "2 ^ highbit_nat (n div 2) \<le> n div 2"
      "n div 2 < 2 ^ Suc (highbit_nat (n div 2))" by simp_all
    moreover have "highbit_nat n = Suc (highbit_nat (n div 2))"
      using False by (subst highbit_nat.simps) simp
    ultimately show ?thesis by simp linarith
  qed
qed

lemma ebind_Inr_iff: "ebind r f = Inr y \<longleftrightarrow> (\<exists>x. r = Inr x \<and> f x = Inr y)"
  by (cases r) (simp_all add: ebind_def)

lemma FSE_highbit_Inr: "FSE_highbit w = Inr h \<Longrightarrow> w \<noteq> 0 \<and> h = int (highbit_nat (unat w))"
  by (auto simp: FSE_highbit_def split: if_splits)

lemma unat_word_of_int_small: "0 \<le> k \<Longrightarrow> k < 2 ^ 32 \<Longrightarrow> unat (word_of_int k :: u32) = nat k"
  by (simp add: unat_eq_nat_uint uint_word_of_int)

lemma normalize_tableLog_range:
  assumes res: "normalize_tableLog tableLog total' nbSymbols = Inr L"
    and n: "2 \<le> nbSymbols" "nbSymbols < 2 ^ 31"
  shows "5 \<le> L \<and> L \<le> 12 \<and> nbSymbols \<le> 2 ^ nat L"
proof -
  define t0 where "t0 = (if tableLog = 0 then FSE_MAX_TABLELOG else tableLog)"
  from res obtain hbTotal hbSymbols t2 where
    hbS: "FSE_highbit (word_of_int nbSymbols) = Inr hbSymbols"
    and t2: "(if hbSymbols + 1 > (if hbTotal + 1 < t0 then hbTotal + 1 else t0)
              then ebind (FSE_highbit (word_of_int (nbSymbols - 1))) (\<lambda>hb. Inr (hb + 1))
              else Inr (if hbTotal + 1 < t0 then hbTotal + 1 else t0)) = Inr t2"
    and fin: "(let tableLog = (if t2 < FSE_MIN_TABLELOG then FSE_MIN_TABLELOG else t2)
               in if tableLog > FSE_MAX_TABLELOG then Inl ErrorCode else Inr tableLog) = Inr L"
    unfolding normalize_tableLog_def Let_def t0_def [symmetric] ebind_Inr_iff by blast
  define t1 where "t1 = (if hbTotal + 1 < t0 then hbTotal + 1 else t0)"
  have L: "L = (if t2 < 5 then 5 else t2)" "L \<le> 12"
    using fin by (auto simp: Let_def FSE_MIN_TABLELOG_def FSE_MAX_TABLELOG_def FSE_MEMORY_USAGE_def
        split: if_splits)
  have un: "unat (word_of_int nbSymbols :: u32) = nat nbSymbols"
    using n by (intro unat_word_of_int_small) simp_all
  have un1: "unat (word_of_int (nbSymbols - 1) :: u32) = nat (nbSymbols - 1)"
    using n by (intro unat_word_of_int_small) simp_all
  have hS: "hbSymbols = int (highbit_nat (nat nbSymbols))"
    using FSE_highbit_Inr [OF hbS] un by simp
  have "nbSymbols \<le> 2 ^ nat t2"
  proof (cases "hbSymbols + 1 > t1")
    case True
    with t2 obtain hb where hb: "FSE_highbit (word_of_int (nbSymbols - 1)) = Inr hb" "t2 = hb + 1"
      unfolding t1_def [symmetric] by (auto simp: ebind_Inr_iff)
    have "hb = int (highbit_nat (nat (nbSymbols - 1)))"
      using FSE_highbit_Inr [OF hb(1)] un1 by simp
    then have "nat t2 = Suc (highbit_nat (nat (nbSymbols - 1)))" using hb(2) by simp
    moreover have "nat (nbSymbols - 1) < 2 ^ Suc (highbit_nat (nat (nbSymbols - 1)))"
      using highbit_nat_bounds [of "nat (nbSymbols - 1)"] n by simp
    ultimately have "nat (nbSymbols - 1) < 2 ^ nat t2" by simp
    then have "nbSymbols - 1 < 2 ^ nat t2"
      by (metis nat_less_iff of_nat_numeral of_nat_power n(1) diff_ge_0_iff_ge
          order_trans one_le_numeral)
    then show ?thesis by simp
  next
    case False
    with t2 have "t2 = t1" unfolding t1_def [symmetric] by simp
    with False hS have "Suc (highbit_nat (nat nbSymbols)) \<le> nat t2" by simp
    then have "(2 :: nat) ^ Suc (highbit_nat (nat nbSymbols)) \<le> 2 ^ nat t2"
      by (intro power_increasing) simp_all
    moreover have "nat nbSymbols < 2 ^ Suc (highbit_nat (nat nbSymbols))"
      using highbit_nat_bounds [of "nat nbSymbols"] n by simp
    ultimately have "nat nbSymbols \<le> 2 ^ nat t2" by linarith
    then show ?thesis
      by (metis nat_le_iff of_nat_numeral of_nat_power)
  qed
  moreover have "(2 :: int) ^ nat t2 \<le> 2 ^ nat L"
    using L(1) by (intro power_increasing) auto
  ultimately have "nbSymbols \<le> 2 ^ nat L" by linarith
  moreover have "5 \<le> L" using L(1) by simp
  ultimately show ?thesis using L(2) by simp
qed

lemma ceiling_log2_le:
  assumes "0 < n" "n \<le> 2 ^ nat L" "0 \<le> L"
  shows "\<lceil>log 2 (real_of_int n)\<rceil> \<le> L"
proof -
  have a: "real_of_int n \<le> 2 ^ nat L" using assms(2) by (metis of_int_le_iff of_int_numeral of_int_power)
  have "log 2 (real_of_int n) \<le> log 2 (2 ^ nat L)"
    using assms(1) a by (subst log_le_cancel_iff) auto
  also have "\<dots> = real (nat L)" by simp
  finally have "log 2 (real_of_int n) \<le> real_of_int L" using assms(3) by simp
  then show ?thesis by (simp add: ceiling_le_iff)
qed

lemma ebind_weak_cong: "r = r' \<Longrightarrow> ebind r f = ebind r' f"
  by simp

lemmas normalize_eval = FSE_normalizeCount_def normalize_tableLog_def normalize_scale_def
  normalize_minimum_def normalize_weights_def FSE_highbit_def highbit_nat.simps ebind_def
  load_def store_at_def Let_def FSE_MAX_TABLELOG_def FSE_MIN_TABLELOG_def FSE_MEMORY_USAGE_def
  FSE_VIRTUAL_LOG_def normalize_minBase_loop.simps

text \<open>
  Claim C7. Whenever \<^verbatim>\<open>FSE_normalizeCount\<close> returns a table log \<open>L > 0\<close>, for a number
  of symbols \<open>nbSymbols \<ge> 2\<close> (an \<^verbatim>\<open>int\<close>, hence below \<open>2^31\<close>) and any store, count
  vector, total and table log hint, \<open>L\<close> lies in \<open>[5, 12]\<close> and is at least
  \<open>\<lceil>log\<^sub>2 nbSymbols\<rceil>\<close>, that is \<open>nbSymbols \<le> 2^L\<close>.
\<close>

theorem FSE_normalizeCount_tableLog_range:
  assumes "FSE_normalizeCount m normalizedCounter tableLog cnt total' nbSymbols = Some (Inr (L, m'))"
    and "0 < L" and "2 \<le> nbSymbols" and "nbSymbols < 2 ^ 31"
  shows "5 \<le> L \<and> L \<le> 12 \<and> nbSymbols \<le> 2 ^ nat L \<and> \<lceil>log 2 (real_of_int nbSymbols)\<rceil> \<le> L"
proof -
  from assms(1) obtain tl m1 v1 m2 v2 where
    tl: "normalize_tableLog tableLog total' nbSymbols = Inr tl"
    and w: "normalize_weights m2 v2 normalizedCounter tl cnt nbSymbols = Inr (L, m')"
    by (auto simp: FSE_normalizeCount_def split: sum.splits option.splits prod.splits)
  from w have "L = 0 \<or> L = tl"
    by (auto simp: normalize_weights_def Let_def ebind_Inr_iff split: if_splits)
  with assms(2) have "L = tl" by simp
  with normalize_tableLog_range [OF tl assms(3,4)]
  have r: "5 \<le> L \<and> L \<le> 12 \<and> nbSymbols \<le> 2 ^ nat L" by simp
  moreover have "\<lceil>log 2 (real_of_int nbSymbols)\<rceil> \<le> L"
    using ceiling_log2_le [of nbSymbols L] r assms(3) by simp
  ultimately show ?thesis by simp
qed

text \<open>Claim C7 at the counts \<open>[1, 1]\<close> with the automatic table log.\<close>

theorem FSE_normalizeCount_tableLog_range_witness:
  "FSE_normalizeCount [[1, 1]] 0 0 0 2 2 = Some (Inr (5, [[16, 16]])) \<and>
   (5 :: int) \<le> 5 \<and> (5 :: int) \<le> 12 \<and> (2 :: int) \<le> 2 ^ nat 5 \<and> \<lceil>log 2 (real_of_int 2)\<rceil> \<le> (5 :: int)"
proof -
  have run: "FSE_normalizeCount [[1, 1]] 0 0 0 2 2 = Some (Inr (5, [[16, 16]]))"
    by (simp add: normalize_eval upt_rec cong: let_weak_cong ebind_weak_cong)
  from FSE_normalizeCount_tableLog_range [OF run] show ?thesis using run by simp
qed

lemma replicate_numeral_eval: "replicate (numeral n) x = x # replicate (pred_numeral n) x"
  by (simp add: numeral_eq_Suc)

text \<open>
  Claim C2 fails on the code. Take the table log 5 and 30 symbols of total 1260: the counts are
  1 everywhere except 309 at symbol 1, 213 at symbol 26 and 711 at symbol 29. Normalized in
  place, the function returns 5 and the weights sum to \<open>32 = 2^5\<close>, but symbol 15, which has
  the count 1, receives the weight 0.
\<close>

theorem FSE_normalizeCount_zero_weight:
  "FSE_normalizeCount [[1, 309] @ replicate 24 1 @ [213, 1, 1, 711]] 0 5 0 1260 30
   = Some (Inr (5, [[1, 2] @ replicate 13 1 @ [0] @ replicate 10 1 @ [2, 1, 1, 2]])) \<and>
   ([1, 309] @ replicate 24 1 @ [213, 1, 1, 711 :: u32]) ! 15 = 1 \<and>
   ([1, 2] @ replicate 13 1 @ [0] @ replicate 10 1 @ [2, 1, 1, 2 :: u32]) ! 15 = 0 \<and>
   sum_list ([1, 309] @ replicate 24 1 @ [213, 1, 1, 711 :: nat]) = 1260"
  by (simp add: normalize_eval upt_rec replicate_numeral_eval cong: let_weak_cong ebind_weak_cong)


section \<open>Properties of the header codec\<close>

subsection \<open>Bytes, words and bits\<close>

lemma bytes_val_append:
  "bytes_val (xs @ ys) = bytes_val xs + 2 ^ (8 * length xs) * bytes_val ys"
  by (induction xs) (simp_all add: algebra_simps power_add)

lemma bytes_val_less: "bytes_val xs < 2 ^ (8 * length xs)"
proof (induction xs)
  case Nil
  then show ?case by simp
next
  case (Cons b bs)
  have "unat b < 256" using unsigned_less [of b, where 'a = nat] by simp
  then have "unat b + 256 * bytes_val bs < 256 * (bytes_val bs + 1)" by simp
  also have "\<dots> \<le> 256 * 2 ^ (8 * length bs)" using Cons.IH by (intro mult_le_mono2) simp
  finally show ?case by (simp add: power_add)
qed

lemma bytes_val_drop: "drop_bit (8 * n) (bytes_val xs) = bytes_val (drop n xs)"
proof (induction n arbitrary: xs)
  case 0
  then show ?case by simp
next
  case (Suc n)
  show ?case
  proof (cases xs)
    case Nil
    then show ?thesis by simp
  next
    case (Cons b bs)
    have "unat b < 256" using unsigned_less [of b, where 'a = nat] by simp
    then have "(unat b + 256 * bytes_val bs) div 2 ^ 8 = bytes_val bs" by simp
    then have "drop_bit 8 (bytes_val xs) = bytes_val bs" by (simp add: Cons drop_bit_eq_div)
    moreover have "drop_bit (8 * Suc n) (bytes_val xs) = drop_bit (8 * n) (drop_bit 8 (bytes_val xs))"
      by (simp add: drop_bit_drop_bit add.commute)
    ultimately have "drop_bit (8 * Suc n) (bytes_val xs) = drop_bit (8 * n) (bytes_val bs)"
      by simp
    then show ?thesis using Suc.IH [of bs] by (simp add: Cons)
  qed
qed

lemma unat_store16: "bytes_val (store16 w) = unat w mod 2 ^ 16"
proof -
  have "unat (ucast w :: byte) = unat w mod 2 ^ 8"
    by (simp add: unsigned_ucast_eq take_bit_eq_mod)
  moreover have "unat (ucast (drop_bit 8 w) :: byte) = (unat w div 2 ^ 8) mod 2 ^ 8"
    by (simp add: unsigned_ucast_eq take_bit_eq_mod unat_drop_bit_eq drop_bit_eq_div unat_div)
  ultimately show ?thesis
    by (simp add: store16_def) (simp add: mod_mult2_eq [of "unat w" "2 ^ 8" "2 ^ 8", simplified])
qed

lemma load32_val:
  assumes "ip + 4 \<le> length mem"
  shows "\<exists>w. load32 mem ip = Inr w \<and> unat w = take_bit 32 (drop_bit (8 * ip) (bytes_val mem))"
proof -
  define b0 b1 b2 b3 rest where "b0 = mem ! ip" and "b1 = mem ! (ip + 1)" and "b2 = mem ! (ip + 2)"
    and "b3 = mem ! (ip + 3)" and "rest = drop (ip + 4) mem"
  note n = b0_def [symmetric] b1_def [symmetric] b2_def [symmetric] b3_def [symmetric]
  have "drop ip mem = mem ! ip # drop (Suc ip) mem"
    using assms by (intro Cons_nth_drop_Suc [symmetric]) simp
  moreover have "drop (Suc ip) mem = mem ! (Suc ip) # drop (Suc (Suc ip)) mem"
    using assms by (intro Cons_nth_drop_Suc [symmetric]) simp
  moreover have "drop (Suc (Suc ip)) mem = mem ! (Suc (Suc ip)) # drop (Suc (Suc (Suc ip))) mem"
    using assms by (intro Cons_nth_drop_Suc [symmetric]) simp
  moreover have "drop (Suc (Suc (Suc ip))) mem
                 = mem ! (Suc (Suc (Suc ip))) # drop (Suc (Suc (Suc (Suc ip)))) mem"
    using assms by (intro Cons_nth_drop_Suc [symmetric]) simp
  moreover have "Suc ip = ip + 1" "Suc (Suc ip) = ip + 2" "Suc (Suc (Suc ip)) = ip + 3"
    "Suc (Suc (Suc (Suc ip))) = ip + 4" by simp_all
  ultimately have d: "drop ip mem = b0 # b1 # b2 # b3 # rest"
    by (simp only: b0_def b1_def b2_def b3_def rest_def)
  have lt: "unat b0 < 256" "unat b1 < 256" "unat b2 < 256" "unat b3 < 256"
    using unsigned_less [of b0, where 'a = nat] unsigned_less [of b1, where 'a = nat]
      unsigned_less [of b2, where 'a = nat] unsigned_less [of b3, where 'a = nat] by simp_all
  define v where "v = unat b0 + 2 ^ 8 * unat b1 + 2 ^ 16 * unat b2 + 2 ^ 24 * unat b3"
  have v: "v < 2 ^ 32" using lt by (simp add: v_def)
  have "bytes_val (drop ip mem) = v + 2 ^ 32 * bytes_val rest" by (simp add: d v_def)
  then have "take_bit 32 (drop_bit (8 * ip) (bytes_val mem)) = v"
    using v by (simp add: bytes_val_drop take_bit_eq_mod)
  moreover have "uint b0 + 2 ^ 8 * uint b1 + 2 ^ 16 * uint b2 + 2 ^ 24 * uint b3 = int v"
    by (simp add: v_def)
  moreover have "unat (word_of_int (int v) :: u32) = v"
    using v by (simp add: unat_of_nat take_bit_nat_eq_self)
  ultimately show ?thesis using assms n by (simp add: load32_def)
qed

lemma word_emit:
  fixes w c :: u32
  assumes "unat w < 2 ^ bc" "unat c < 2 ^ len" "bc + len \<le> 32"
  shows "unat (w + push_bit bc c) = unat w + 2 ^ bc * unat c"
    and "unat w + 2 ^ bc * unat c < 2 ^ (bc + len)"
proof -
  have "2 ^ bc * (unat c + 1) \<le> 2 ^ bc * 2 ^ len" using assms(2) by (intro mult_le_mono2) simp
  then have a: "2 ^ bc * unat c + 2 ^ bc \<le> 2 ^ (bc + len)" by (simp add: power_add algebra_simps)
  then show b: "unat w + 2 ^ bc * unat c < 2 ^ (bc + len)" using assms(1) by linarith
  have "(2 :: nat) ^ (bc + len) \<le> 2 ^ 32" using assms(3) by (intro power_increasing) simp_all
  then have c: "unat w + 2 ^ bc * unat c < 2 ^ 32" using b by linarith
  then have "2 ^ bc * unat c < 2 ^ 32" by linarith
  then have "take_bit 32 (push_bit bc (unat c)) = 2 ^ bc * unat c"
    by (simp add: push_bit_eq_mult take_bit_nat_eq_self mult.commute)
  then have "unat (push_bit bc c) = 2 ^ bc * unat c"
    by (simp only: unsigned_push_bit_eq) simp
  then show "unat (w + push_bit bc c) = unat w + 2 ^ bc * unat c"
    using c by (simp add: unat_add_lem [THEN iffD1])
qed

subsection \<open>The loop on the threshold\<close>

lemma header_halve_total:
  assumes "1 \<le> nbb" "thr = 2 ^ nat (nbb - 1)" "0 \<le> r" "r < 2 * thr"
  shows "\<exists>nb th. header_halve r nbb thr = Some (nb, th) \<and> nb \<le> nbb \<and>
           (r < thr \<longrightarrow> nb < nbb) \<and>
           (0 < r \<longrightarrow> 1 \<le> nb \<and> th = 2 ^ nat (nb - 1) \<and> th \<le> r \<and> r < 2 * th)"
  using assms
proof (induction "nat nbb" arbitrary: nbb thr)
  case 0
  then show ?case by simp
next
  case (Suc n)
  show ?case
  proof (cases "r < thr")
    case False
    then show ?thesis using Suc.prems by (subst header_halve.simps) simp
  next
    case True
    show ?thesis
    proof (cases "nbb = 1")
      case True
      then have "thr = 1" "r = 0" using Suc.prems \<open>r < thr\<close> by simp_all
      then show ?thesis using True
        by (subst header_halve.simps, subst header_halve.simps) simp
    next
      case False
      then have nb: "2 \<le> nbb" using Suc.prems(1) by simp
      then have "nat (nbb - 1) = Suc (nat (nbb - 1 - 1))" by simp
      then have th: "drop_bit 1 thr = 2 ^ nat (nbb - 1 - 1)"
        using Suc.prems(2) by (simp add: drop_bit_eq_div)
      have r: "r < 2 * drop_bit 1 thr"
        using True Suc.prems(2) \<open>nat (nbb - 1) = Suc (nat (nbb - 1 - 1))\<close> th by simp
      have n: "n = nat (nbb - 1)" using Suc.hyps(2) by simp
      have one: "1 \<le> nbb - 1" using nb by simp
      from Suc.hyps(1) [OF n one th Suc.prems(3) r]
      obtain nb' th' where h: "header_halve r (nbb - 1) (drop_bit 1 thr) = Some (nb', th')"
        "nb' \<le> nbb - 1"
        "0 < r \<longrightarrow> 1 \<le> nb' \<and> th' = 2 ^ nat (nb' - 1) \<and> th' \<le> r \<and> r < 2 * th'"
        by blast
      show ?thesis using True h by (subst header_halve.simps) auto
    qed
  qed
qed

subsection \<open>The writer, step by step\<close>

lemma wstep_refl: "wstep st st 0 0"
  by (simp add: wstep_def)

lemma wstep_trans:
  assumes "wstep st st' c1 l1" "wstep st' st'' c2 l2"
  shows "wstep st st'' (c1 + 2 ^ l1 * c2) (l1 + l2)"
proof -
  have "2 ^ l1 * (c2 + 1) \<le> (2 :: nat) ^ l1 * 2 ^ l2"
    using assms(2) by (intro mult_le_mono2) (simp add: wstep_def)
  then have "c1 + 2 ^ l1 * c2 < (2 :: nat) ^ (l1 + l2)"
    using assms(1) by (simp add: wstep_def power_add algebra_simps)
  then show ?thesis using assms by (simp add: wstep_def power_add algebra_simps)
qed

lemma wsame_refl [simp]: "wsame st st"
  by (simp add: wsame_def)

lemma wsame_trans: "wsame st st' \<Longrightarrow> wsame st' st'' \<Longrightarrow> wsame st st''"
  by (simp add: wsame_def)

lemma wstep_emit:
  assumes "0 \<le> wBitCount st" "unat (wBitStream st) < 2 ^ nat (wBitCount st)"
    and "unat c < 2 ^ len" "nat (wBitCount st) + len \<le> 32"
    and "wOut st' = wOut st"
    and "wBitStream st' = wBitStream st + push_bit (nat (wBitCount st)) c"
    and "wBitCount st' = wBitCount st + int len"
  shows "wstep st st' (unat c) len" "unat (wBitStream st') < 2 ^ nat (wBitCount st')"
proof -
  note e = word_emit [OF assms(2,3,4)]
  show "wstep st st' (unat c) len"
    using assms(1,3) by (simp add: wstep_def wv_def wB_def assms(5,6,7) e(1) power_add algebra_simps)
  show "unat (wBitStream st') < 2 ^ nat (wBitCount st')"
    using e(2) assms(1) by (simp add: assms(6,7) e(1) nat_add_distrib)
qed

lemma split16: "(x :: nat) mod 2 ^ 16 + 2 ^ 16 * (x div 2 ^ 16) = x"
  by simp

lemma unat_drop16: "unat (drop_bit 16 (w :: u32)) = unat w div 65536"
  by (simp add: unat_drop_bit_eq drop_bit_eq_div unat_div)

lemma length_store16 [simp]: "length (store16 w) = 2"
  by (simp add: store16_def)

lemma wv_store:
  "bytes_val (out @ store16 w) + 2 ^ (8 * length (out @ store16 w)) * unat (drop_bit 16 w)
   = bytes_val out + 2 ^ (8 * length out) * unat w"
proof -
  define k :: nat where "k = 2 ^ (8 * length out)"
  define x where "x = unat w"
  have "bytes_val (out @ store16 w) + 2 ^ (8 * length (out @ store16 w)) * unat (drop_bit 16 w)
        = bytes_val out + k * (x mod 65536) + k * (65536 * (x div 65536))"
    by (simp add: bytes_val_append unat_store16 unat_drop16 power_add k_def x_def)
  also have "\<dots> = bytes_val out + k * (x mod 65536 + 65536 * (x div 65536))"
    by (simp only: distrib_left add.assoc)
  also have "x mod 65536 + 65536 * (x div 65536) = x" by simp
  finally show ?thesis by (simp add: k_def x_def)
qed

lemma wh_flush_props:
  assumes "0 \<le> wBitCount st" "wBitCount st \<le> 32" "unat (wBitStream st) < 2 ^ nat (wBitCount st)"
  shows "wv (wh_flush st) = wv st" "wB (wh_flush st) = wB st" "wf_w (wh_flush st)"
    "wsame st (wh_flush st)"
proof -
  show "wv (wh_flush st) = wv st"
    using wv_store [of "wOut st" "wBitStream st"] by (simp add: wh_flush_def wv_def)
  show "wB (wh_flush st) = wB st" using assms(1) by (auto simp add: wh_flush_def wB_def)
  show "wsame st (wh_flush st)" by (simp add: wh_flush_def wsame_def)
  show "wf_w (wh_flush st)"
  proof (cases "wBitCount st > 16")
    case False
    then show ?thesis using assms by (simp add: wh_flush_def wf_w_def)
  next
    case True
    then have "nat (wBitCount st) = 16 + nat (wBitCount st - 16)" by simp
    then have "unat (wBitStream st) < 2 ^ 16 * 2 ^ nat (wBitCount st - 16)"
      using assms(3) by (metis power_add)
    then have "unat (wBitStream st) div 2 ^ 16 < 2 ^ nat (wBitCount st - 16)"
      by (simp add: less_mult_imp_div_less mult.commute)
    then show ?thesis using True assms(2)
      by (simp add: wh_flush_def wf_w_def unat_drop16)
  qed
qed

lemma ones_add: "ones (a + b) = ones a + 2 ^ a * ones b"
proof -
  have "(2 :: nat) ^ a * (2 ^ b - 1) = 2 ^ (a + b) - 2 ^ a"
    by (simp add: diff_mult_distrib2 power_add)
  moreover have "(1 :: nat) \<le> 2 ^ a" by simp
  moreover have "(2 :: nat) ^ a \<le> 2 ^ (a + b)" by simp
  ultimately show ?thesis unfolding ones_def by linarith
qed

lemma ones_less: "ones n < 2 ^ n"
  by (simp add: ones_def)

lemma ones_Suc: "Suc (ones n) = 2 ^ n"
  by (simp add: ones_def)

lemma ones_0 [simp]: "ones 0 = 0"
  by (simp add: ones_def)

lemma ones_16: "ones 16 = 65535"
  by (simp add: ones_def)

lemma ones_2: "ones 2 = 3"
  by (simp add: ones_def)

lemma wh_run24_step:
  assumes "wf_w st"
    and "st' = st\<lparr>wOut := wOut st @ store16 (wBitStream st + push_bit (nat (wBitCount st)) 0xFFFF),
                  wBitStream := drop_bit 16 (wBitStream st + push_bit (nat (wBitCount st)) 0xFFFF)\<rparr>"
  shows "wstep st st' (ones 16) 16" "wf_w st'" "wBitCount st' = wBitCount st" "wsame st st'"
proof -
  define bs1 where "bs1 = wBitStream st + push_bit (nat (wBitCount st)) 0xFFFF"
  have bc: "0 \<le> wBitCount st" "wBitCount st \<le> 16" "unat (wBitStream st) < 2 ^ nat (wBitCount st)"
    using assms(1) by (simp_all add: wf_w_def)
  have c: "unat (0xFFFF :: u32) < 2 ^ 16" by simp
  have le: "nat (wBitCount st) + 16 \<le> 32" using bc by simp
  have u: "unat (0xFFFF :: u32) = 65535" by simp
  note e = word_emit [OF bc(3) c le, folded bs1_def, unfolded u]
  have st': "st' = st\<lparr>wOut := wOut st @ store16 bs1, wBitStream := drop_bit 16 bs1\<rparr>"
    by (simp add: assms(2) bs1_def)
  have "wv st' = bytes_val (wOut st) + 2 ^ (8 * length (wOut st)) * unat bs1"
    using wv_store [of "wOut st" bs1] by (simp add: wv_def st')
  then have "wv st' = wv st + 2 ^ wB st * 65535"
    using bc(1) by (simp add: e(1) wv_def wB_def power_add algebra_simps)
  moreover have "wB st' = wB st + 16" by (simp add: wB_def st')
  ultimately show "wstep st st' (ones 16) 16" by (simp add: wstep_def ones_16)
  have "unat bs1 < 2 ^ nat (wBitCount st) * 2 ^ 16" using e by (simp add: power_add)
  then have "unat bs1 div 2 ^ 16 < 2 ^ nat (wBitCount st)"
    by (simp add: less_mult_imp_div_less)
  then show "wf_w st'" using bc by (simp add: wf_w_def st' unat_drop16)
  show "wBitCount st' = wBitCount st" "wsame st st'" by (simp_all add: st' wsame_def)
qed

lemma wh_run24_props:
  assumes "wf_w st" "start \<le> c"
  shows "\<exists>st'. wh_run24 c start st = (start + 24 * ((c - start) div 24), st') \<and>
           wstep st st' (ones (16 * ((c - start) div 24))) (16 * ((c - start) div 24)) \<and>
           wf_w st' \<and> wBitCount st' = wBitCount st \<and> wsame st st'"
  using assms
proof (induction c start st rule: wh_run24.induct)
  case (1 charnum start st)
  show ?case
  proof (cases "start + 24 \<le> charnum")
    case False
    then have "(charnum - start) div 24 = 0" by simp
    then show ?thesis using False "1.prems"(1)
      by (subst wh_run24.simps) (simp add: wstep_refl)
  next
    case True
    define st1 where "st1 = st\<lparr>wOut := wOut st @ store16 (wBitStream st + push_bit (nat (wBitCount st)) 0xFFFF),
                  wBitStream := drop_bit 16 (wBitStream st + push_bit (nat (wBitCount st)) 0xFFFF)\<rparr>"
    note s = wh_run24_step [OF "1.prems"(1) st1_def]
    define a where "a = (charnum - (start + 24)) div 24"
    have a: "(charnum - start) div 24 = Suc a"
      using True by (simp add: a_def)
    have "start + 24 \<le> charnum" using True .
    from "1.IH" [OF True refl s(2) [unfolded st1_def] this, folded st1_def]
    obtain st' where r: "wh_run24 charnum (start + 24) st1 = (start + 24 + 24 * a, st')"
      "wstep st1 st' (ones (16 * a)) (16 * a)" "wf_w st'" "wBitCount st' = wBitCount st1"
      "wsame st1 st'"
      by (auto simp add: a_def)
    have "wh_run24 charnum start st = wh_run24 charnum (start + 24) st1"
      using True by (subst wh_run24.simps) (simp add: st1_def Let_def)
    moreover have "wstep st st' (ones (16 * Suc a)) (16 * Suc a)"
      using wstep_trans [OF s(1) r(2)] ones_add [of 16 "16 * a"] by simp
    ultimately show ?thesis
      using r s(3) wsame_trans [OF s(4) r(5)] by (simp add: a)
  qed
qed

lemma wh_run3_props:
  assumes "0 \<le> wBitCount st" "unat (wBitStream st) < 2 ^ nat (wBitCount st)" "start \<le> c"
    and "nat (wBitCount st) + 2 * ((c - start) div 3) \<le> 30"
  shows "\<exists>st'. wh_run3 c start st = (start + 3 * ((c - start) div 3), st') \<and>
           wstep st st' (ones (2 * ((c - start) div 3))) (2 * ((c - start) div 3)) \<and>
           wOut st' = wOut st \<and> wBitCount st' = wBitCount st + 2 * int ((c - start) div 3) \<and>
           unat (wBitStream st') < 2 ^ nat (wBitCount st') \<and> wsame st st'"
  using assms
proof (induction c start st rule: wh_run3.induct)
  case (1 charnum start st)
  show ?case
  proof (cases "start + 3 \<le> charnum")
    case False
    then have "(charnum - start) div 3 = 0" by simp
    then show ?thesis using False "1.prems"(2)
      by (subst wh_run3.simps) (simp add: wstep_refl)
  next
    case True
    define st1 where "st1 = st\<lparr>wBitStream := wBitStream st + push_bit (nat (wBitCount st)) 3,
                 wBitCount := wBitCount st + 2\<rparr>"
    define m where "m = (charnum - (start + 3)) div 3"
    have m: "(charnum - start) div 3 = Suc m"
      using True by (simp add: m_def)
    have u: "unat (3 :: u32) = 3" by simp
    have c: "unat (3 :: u32) < 2 ^ 2" by simp
    have le: "nat (wBitCount st) + 2 \<le> 32" using "1.prems"(4) m by simp
    have f: "wOut st1 = wOut st"
      "wBitStream st1 = wBitStream st + push_bit (nat (wBitCount st)) 3"
      "wBitCount st1 = wBitCount st + int 2"
      by (simp_all add: st1_def)
    note e = wstep_emit [OF "1.prems"(1,2) c le f, unfolded u ones_2 [symmetric]]
    have bc1: "0 \<le> wBitCount st1" using "1.prems"(1) by (simp add: st1_def)
    have le1: "nat (wBitCount st1) + 2 * ((charnum - (start + 3)) div 3) \<le> 30"
      using "1.prems"(1,4) m by (simp add: st1_def m_def nat_add_distrib)
    from "1.IH" [OF True bc1 [unfolded st1_def] e(2) [unfolded st1_def] True le1 [unfolded st1_def],
        folded st1_def]
    obtain st' where r: "wh_run3 charnum (start + 3) st1 = (start + 3 + 3 * m, st')"
      "wstep st1 st' (ones (2 * m)) (2 * m)" "wOut st' = wOut st1"
      "wBitCount st' = wBitCount st1 + 2 * int m"
      "unat (wBitStream st') < 2 ^ nat (wBitCount st')" "wsame st1 st'"
      by (auto simp add: m_def)
    have "wh_run3 charnum start st = wh_run3 charnum (start + 3) st1"
      using True by (subst wh_run3.simps) (simp add: st1_def)
    moreover have "wstep st st' (ones (2 * Suc m)) (2 * Suc m)"
      using wstep_trans [OF e(1) r(2)] ones_add [of 2 "2 * m"] by simp
    moreover have "wsame st st1" by (simp add: st1_def wsame_def)
    ultimately show ?thesis
      using r wsame_trans [OF \<open>wsame st st1\<close> r(6)] by (simp add: m st1_def)
  qed
qed

lemma wh_skip_zeros_props:
  assumes "k + z < length N" "N ! (k + z) \<noteq> 0" "\<forall>i<z. N ! (k + i) = 0"
  shows "wh_skip_zeros (drop k N) k = Inr (k + z)"
  using assms
proof (induction z arbitrary: k)
  case 0
  then have "drop k N = N ! k # drop (Suc k) N" by (simp add: Cons_nth_drop_Suc)
  then show ?case using 0 by simp
next
  case (Suc z)
  have d: "drop k N = N ! k # drop (Suc k) N" using Suc.prems(1) by (simp add: Cons_nth_drop_Suc)
  have z: "N ! k = 0" using Suc.prems(3) [rule_format, of 0] by simp
  have "\<forall>i<z. N ! (Suc k + i) = 0" using Suc.prems(3) by (metis Suc_less_eq add_Suc_shift)
  from Suc.IH [of "Suc k", OF _ _ this] Suc.prems(1,2)
  have "wh_skip_zeros (drop (Suc k) N) (Suc k) = Inr (Suc k + z)" by simp
  then show ?case by (simp add: d z)
qed

lemma wCharnum_update_wv [simp]:
  "wv (st\<lparr>wCharnum := c\<rparr>) = wv st" "wB (st\<lparr>wCharnum := c\<rparr>) = wB st"
  by (simp_all add: wv_def wB_def)

lemma mod24_mod3: "(z mod 24) mod 3 = z mod (3 :: nat)"
  by (simp add: mod_mod_cancel)

lemma zdecomp: "24 * (z div 24) + 3 * (z mod 24 div 3) + z mod 3 = (z :: nat)"
proof -
  have "3 * (z mod 24 div 3) + (z mod 24) mod 3 = z mod 24" by simp
  then have "3 * (z mod 24 div 3) + z mod 3 = z mod 24" by (simp only: mod24_mod3)
  moreover have "24 * (z div 24) + z mod 24 = z" by simp
  ultimately show ?thesis by linarith
qed

lemma wh_zero_run_props:
  assumes "wf_w st" "wCharnum st + z < length N" "N ! (wCharnum st + z) \<noteq> 0"
    "\<forall>i<z. N ! (wCharnum st + i) = 0"
  shows "\<exists>st'. wh_zero_run N st = Inr st' \<and> wstep st st' (zcode z) (zlen z) \<and> wf_w st' \<and>
           wCharnum st' = wCharnum st + z \<and> wPrevious0 st' = wPrevious0 st \<and>
           wRemaining st' = wRemaining st \<and> wThreshold st' = wThreshold st \<and>
           wNbBits st' = wNbBits st"
proof -
  define k where "k = wCharnum st"
  define a where "a = z div 24"
  define m where "m = z mod 24 div 3"
  define r where "r = z mod 3"
  have skip: "wh_skip_zeros (drop k N) k = Inr (k + z)"
    using wh_skip_zeros_props [of k z N] assms(2-4) by (simp add: k_def)
  have kz: "(k + z - k) div 24 = a" by (simp add: a_def)
  from wh_run24_props [OF assms(1), of k "k + z"]
  obtain st1 where s1: "wh_run24 (k + z) k st = (k + 24 * a, st1)"
    "wstep st st1 (ones (16 * a)) (16 * a)" "wf_w st1" "wBitCount st1 = wBitCount st"
    "wsame st st1"
    unfolding kz by auto
  have bc1: "0 \<le> wBitCount st1" "wBitCount st1 \<le> 16" "unat (wBitStream st1) < 2 ^ nat (wBitCount st1)"
    using s1(3) by (simp_all add: wf_w_def)
  have z24: "k + z - (k + 24 * a) = z mod 24"
    by (simp add: a_def) (metis minus_mult_div_eq_mod)
  have m7: "m \<le> 7" by (simp add: m_def) 
  have le: "k + 24 * a \<le> k + z" by (simp add: a_def)
  have le30: "nat (wBitCount st1) + 2 * ((k + z - (k + 24 * a)) div 3) \<le> 30"
    unfolding z24 using bc1 m7 by (simp add: m_def)
  from wh_run3_props [OF bc1(1,3) le le30]
  obtain st2 where s2: "wh_run3 (k + z) (k + 24 * a) st1 = (k + 24 * a + 3 * m, st2)"
    "wstep st1 st2 (ones (2 * m)) (2 * m)" "wOut st2 = wOut st1"
    "wBitCount st2 = wBitCount st1 + 2 * int m"
    "unat (wBitStream st2) < 2 ^ nat (wBitCount st2)" "wsame st1 st2"
    unfolding z24 m_def [symmetric] by auto
  have rem: "int (k + z) - int (k + 24 * a + 3 * m) = int r"
    using zdecomp [of z] by (simp add: a_def m_def r_def)
  define st3 where "st3 = st2\<lparr>wBitStream := wBitStream st2 +
                             push_bit (nat (wBitCount st2)) (word_of_int (int r)),
                           wBitCount := wBitCount st2 + 2, wCharnum := k + z\<rparr>"
  have r3: "r < 3" by (simp add: r_def)
  then have ur: "unat (word_of_int (int r) :: u32) = r"
    by (simp add: unat_of_nat take_bit_nat_eq_self)
  have c: "unat (word_of_int (int r) :: u32) < 2 ^ 2" using r3 unfolding ur by simp
  have bc2: "0 \<le> wBitCount st2" "wBitCount st2 \<le> 30" using bc1 s2(4) m7 by simp_all
  have le2: "nat (wBitCount st2) + 2 \<le> 32" using bc2 by simp
  have f: "wOut st3 = wOut st2"
    "wBitStream st3 = wBitStream st2 + push_bit (nat (wBitCount st2)) (word_of_int (int r))"
    "wBitCount st3 = wBitCount st2 + int 2"
    by (simp_all add: st3_def)
  note e = wstep_emit [OF bc2(1) s2(5) c le2 f, unfolded ur]
  have bc3: "0 \<le> wBitCount st3" "wBitCount st3 \<le> 32" using bc2 by (simp_all add: st3_def)
  note fl = wh_flush_props [OF bc3 e(2)]
  have "wh_zero_run N st = Inr (wh_flush (st2\<lparr>wBitStream := wBitStream st2 +
           push_bit (nat (wBitCount st2)) (word_of_int (int (k + z) - int (k + 24 * a + 3 * m))),
           wBitCount := wBitCount st2 + 2, wCharnum := k + z\<rparr>))"
    by (simp only: wh_zero_run_def k_def [symmetric] skip s1(1) s2(1) sum.case prod.case)
  then have run: "wh_zero_run N st = Inr (wh_flush st3)"
    by (simp only: rem st3_def)
  have "wstep st st3 (ones (16 * a) + 2 ^ (16 * a) * (ones (2 * m) + 2 ^ (2 * m) * r))
          (16 * a + (2 * m + 2))"
    by (intro wstep_trans [OF s1(2)] wstep_trans [OF s2(2)] e(1))
  moreover have "zlen z = 16 * a + (2 * m + 2)" by (simp add: zlen_def a_def m_def)
  moreover have "zcode z = ones (16 * a) + 2 ^ (16 * a) * (ones (2 * m) + 2 ^ (2 * m) * r)"
  proof -
    have "zcode z = ones (16 * a + 2 * m) + 2 ^ (16 * a + 2 * m) * r"
      by (simp add: zcode_def a_def m_def r_def)
    also have "\<dots> = ones (16 * a) + 2 ^ (16 * a) * ones (2 * m) + 2 ^ (16 * a) * (2 ^ (2 * m) * r)"
      by (simp only: ones_add power_add mult.assoc)
    also have "\<dots> = ones (16 * a) + 2 ^ (16 * a) * (ones (2 * m) + 2 ^ (2 * m) * r)"
      by (simp only: distrib_left add.assoc)
    finally show ?thesis .
  qed
  ultimately have "wstep st st3 (zcode z) (zlen z)" by simp
  then have "wstep st (wh_flush st3) (zcode z) (zlen z)"
    using fl(1,2) by (simp add: wstep_def)
  moreover have "wsame st st2" using wsame_trans [OF s1(5) s2(6)] .
  then have "wCharnum (wh_flush st3) = wCharnum st + z \<and> wPrevious0 (wh_flush st3) = wPrevious0 st \<and>
           wRemaining (wh_flush st3) = wRemaining st \<and> wThreshold (wh_flush st3) = wThreshold st \<and>
           wNbBits (wh_flush st3) = wNbBits st"
    using fl(4) by (simp add: wsame_def st3_def k_def)
  ultimately show ?thesis using run fl(3) by simp
qed

lemma ccode_bounds:
  assumes "0 \<le> cnt" "cnt \<le> rem" "1 \<le> nb" "th = 2 ^ nat (nb - 1)" "th \<le> rem" "rem < 2 * th"
  shows "0 \<le> cmax th rem" "cmax th rem < th" "0 \<le> ccode th rem cnt"
    "ccode th rem cnt < 2 ^ nat (clen nb th rem cnt)" "0 \<le> clen nb th rem cnt"
    "clen nb th rem cnt \<le> nb" "ccode th rem cnt = 0 \<longleftrightarrow> cnt = 0"
proof -
  have th1: "1 \<le> th" using assms(4) by simp
  have "nat nb = Suc (nat (nb - 1))" using assms(3) by simp
  then have th2: "2 * th = 2 ^ nat nb" using assms(4) by simp
  show m0: "0 \<le> cmax th rem" and m1: "cmax th rem < th"
    using assms by (simp_all add: cmax_def)
  show c0: "0 \<le> ccode th rem cnt" using assms(1) m0 by (simp add: ccode_def)
  show "0 \<le> clen nb th rem cnt" "clen nb th rem cnt \<le> nb" using assms(3) by (simp_all add: clen_def)
  show "ccode th rem cnt = 0 \<longleftrightarrow> cnt = 0" using th1 m0 assms(1) by (auto simp add: ccode_def)
  show "ccode th rem cnt < 2 ^ nat (clen nb th rem cnt)"
  proof (cases "ccode th rem cnt < cmax th rem")
    case True
    then have "ccode th rem cnt < th" using m1 by simp
    then show ?thesis using True assms(4) by (simp add: clen_def)
  next
    case False
    have "ccode th rem cnt < 2 * th" using assms(2,5,6) by (simp add: ccode_def cmax_def)
    then show ?thesis using False th2 by (simp add: clen_def)
  qed
qed

lemma wh_count_props:
  assumes wf: "wf_w st" and k: "wCharnum st < length N"
    and cnt: "sint (N ! wCharnum st) = cnt" "0 \<le> cnt" "cnt \<le> wRemaining st"
    and nb: "1 \<le> wNbBits st" "wNbBits st \<le> 13"
    and th: "wThreshold st = 2 ^ nat (wNbBits st - 1)" "wThreshold st \<le> wRemaining st"
      "wRemaining st < 2 * wThreshold st"
  shows "\<exists>st' nb' th'. wh_count N st = Some (Inr st') \<and>
           header_halve (wRemaining st - cnt) (wNbBits st) (wThreshold st) = Some (nb', th') \<and>
           wstep st st' (nat (ccode (wThreshold st) (wRemaining st) cnt))
             (nat (clen (wNbBits st) (wThreshold st) (wRemaining st) cnt)) \<and>
           wf_w st' \<and> wCharnum st' = wCharnum st + 1 \<and> wPrevious0 st' = (cnt = 0) \<and>
           wRemaining st' = wRemaining st - cnt \<and> wThreshold st' = th' \<and> wNbBits st' = nb'"
proof -
  define c where "c = ccode (wThreshold st) (wRemaining st) cnt"
  define len where "len = clen (wNbBits st) (wThreshold st) (wRemaining st) cnt"
  note b = ccode_bounds [OF cnt(2,3) nb(1) th, folded c_def len_def]
  have r: "0 \<le> wRemaining st - cnt" "wRemaining st - cnt < 2 * wThreshold st"
    using cnt th by simp_all
  from header_halve_total [OF nb(1) th(1) r]
  obtain nb' th' where h: "header_halve (wRemaining st - cnt) (wNbBits st) (wThreshold st) = Some (nb', th')"
    by blast
  define st1 where "st1 = st\<lparr>wBitStream := wBitStream st + push_bit (nat (wBitCount st)) (word_of_int c),
     wBitCount := wBitCount st + len, wCharnum := wCharnum st + 1, wPrevious0 := (c = 0),
     wRemaining := wRemaining st - cnt, wThreshold := th', wNbBits := nb'\<rparr>"
  have run: "wh_count N st = Some (Inr (wh_flush st1))"
    using k h
    by (simp add: wh_count_def Let_def cnt(1) st1_def c_def len_def ccode_def clen_def cmax_def
        add_diff_eq)
  have bc: "0 \<le> wBitCount st" "wBitCount st \<le> 16" "unat (wBitStream st) < 2 ^ nat (wBitCount st)"
    using wf by (simp_all add: wf_w_def)
  have "c < 2 ^ nat len" using b(4) .
  also have "\<dots> \<le> 2 ^ 13" using b(6) nb(2) by (intro power_increasing) simp_all
  finally have c13: "c < 2 ^ 13" .
  then have uc: "unat (word_of_int c :: u32) = nat c"
    using b(3) by (simp add: unat_eq_nat_uint uint_word_of_int take_bit_int_eq_self)
  have cl: "unat (word_of_int c :: u32) < 2 ^ nat len"
    unfolding uc using b(3,4) by (simp add: nat_less_iff)
  have le: "nat (wBitCount st) + nat len \<le> 32" using bc b(6) nb(2) by simp
  have f: "wOut st1 = wOut st"
    "wBitStream st1 = wBitStream st + push_bit (nat (wBitCount st)) (word_of_int c)"
    "wBitCount st1 = wBitCount st + int (nat len)"
    using b(5) by (simp_all add: st1_def)
  note e = wstep_emit [OF bc(1,3) cl le f, unfolded uc]
  have bc1: "0 \<le> wBitCount st1" "wBitCount st1 \<le> 32"
    using bc b(5,6) nb(2) by (simp_all add: st1_def)
  note fl = wh_flush_props [OF bc1 e(2)]
  have "wstep st (wh_flush st1) (nat c) (nat len)"
    using e(1) fl(1,2) by (simp add: wstep_def)
  moreover have "wCharnum (wh_flush st1) = wCharnum st + 1 \<and> wPrevious0 (wh_flush st1) = (cnt = 0) \<and>
           wRemaining (wh_flush st1) = wRemaining st - cnt \<and> wThreshold (wh_flush st1) = th' \<and>
           wNbBits (wh_flush st1) = nb'"
    using fl(4) b(7) by (simp add: wsame_def st1_def)
  ultimately show ?thesis using run h fl(3) by (simp add: c_def len_def)
qed

lemma rsame_refl [simp]: "rsame rs rs"
  by (simp add: rsame_def)

lemma rsame_trans: "rsame rs rs' \<Longrightarrow> rsame rs' rs'' \<Longrightarrow> rsame rs rs''"
  by (simp add: rsame_def)

subsection \<open>The reader, step by step\<close>

lemma strm_add: "strm mem (p + n) = drop_bit n (strm mem p)"
  by (simp add: strm_def drop_bit_drop_bit add.commute)

lemma take_drop_take:
  "n + bc \<le> 32 \<Longrightarrow> take_bit n (drop_bit bc (take_bit 32 (x :: nat))) = take_bit n (drop_bit bc x)"
  by (simp add: take_bit_drop_bit min_def)

lemma rread:
  assumes "rsync mem rs" "n + nat (rBitCount rs) \<le> 32"
  shows "take_bit n (unat (rBitStream rs)) = take_bit n (strm mem (rpos rs))"
proof -
  have "unat (rBitStream rs) = drop_bit (nat (rBitCount rs)) (take_bit 32 (strm mem (8 * rIp rs)))"
    using assms(1) by (simp add: rsync_def)
  then show ?thesis
    using take_drop_take [OF assms(2), of "strm mem (8 * rIp rs)"]
    by (simp add: rpos_def strm_add)
qed

lemma split_code:
  assumes "take_bit (n + k) (s :: nat) = c + 2 ^ n * y" "c < 2 ^ n"
  shows "take_bit n s = c" "take_bit k (drop_bit n s) = y"
proof -
  have "take_bit n s = take_bit n (take_bit (n + k) s)" by (simp add: min_def)
  also have "\<dots> = c" using assms by (simp add: take_bit_eq_mod)
  finally show "take_bit n s = c" .
  have "take_bit k (drop_bit n s) = drop_bit n (take_bit (k + n) s)" by (simp add: take_bit_drop_bit)
  also have "\<dots> = y" using assms by (simp add: add.commute drop_bit_eq_div)
  finally show "take_bit k (drop_bit n s) = y" .
qed

lemma rh_reload_props:
  assumes "0 \<le> rBitCount rs" "rpos rs div 8 + 4 \<le> length mem"
  shows "\<exists>rs'. rh_reload mem rs = Inr rs' \<and> rsync mem rs' \<and> rpos rs' = rpos rs \<and>
           rBitCount rs' \<le> 7 \<and> rsame rs rs'"
proof -
  define ip where "ip = rIp rs + nat (drop_bit 3 (rBitCount rs))"
  define bc where "bc = rBitCount rs AND 7"
  have d: "drop_bit 3 (rBitCount rs) = rBitCount rs div 8" by (simp add: drop_bit_eq_div)
  have "take_bit 3 (rBitCount rs) = rBitCount rs AND mask 3" by (rule take_bit_eq_mask)
  also have "(mask 3 :: int) = 7" by (simp add: mask_eq_exp_minus_1)
  finally have a: "bc = rBitCount rs mod 8"
    by (simp add: bc_def take_bit_eq_mod)
  have bc: "0 \<le> bc" "bc \<le> 7" using a by simp_all
  have pos: "8 * ip + nat bc = rpos rs"
    using assms(1) by (simp add: ip_def a d rpos_def nat_div_distrib nat_mod_distrib)
  then have "ip = rpos rs div 8" using bc by (simp add: a)
  then have len: "ip + 4 \<le> length mem" using assms(2) by simp
  from load32_val [OF len] obtain w where w: "load32 mem ip = Inr w"
    "unat w = take_bit 32 (drop_bit (8 * ip) (bytes_val mem))" by blast
  define rs' where "rs' = rs\<lparr>rIp := ip, rBitCount := bc, rBitStream := drop_bit (nat bc) w\<rparr>"
  have "rh_reload mem rs = Inr rs'"
    by (simp add: rh_reload_def Let_def w(1) rs'_def flip: ip_def bc_def)
  moreover have "rsync mem rs'"
    using bc len by (simp add: rsync_def rs'_def unat_drop_bit_eq w(2) strm_def)
  moreover have "rpos rs' = rpos rs" using pos by (simp add: rpos_def rs'_def)
  moreover have "rsame rs rs'" by (simp add: rsame_def rs'_def)
  ultimately show ?thesis using bc by (auto simp add: rs'_def)
qed

lemma and_mask_unat: "unat ((w :: u32) AND mask k) = take_bit k (unat w)"
  by (simp add: unsigned_take_bit_eq flip: take_bit_eq_mask)

lemma and_ffff: "(w :: u32) AND 0xFFFF = 0xFFFF \<longleftrightarrow> take_bit 16 (unat w) = 65535"
proof -
  have "unat (w AND 0xFFFF) = take_bit 16 (unat w)"
    using and_mask_unat [of w 16] by (simp add: mask_eq_exp_minus_1)
  moreover have "w AND 0xFFFF = 0xFFFF \<longleftrightarrow> unat (w AND 0xFFFF) = unat (0xFFFF :: u32)"
    by (rule word_unat_eq_iff)
  ultimately show ?thesis by simp
qed

lemma and_3: "unat ((w :: u32) AND 3) = take_bit 2 (unat w)"
  using and_mask_unat [of w 2] by (simp add: mask_eq_exp_minus_1)

lemma take_bit_ones: "t \<le> n \<Longrightarrow> take_bit t (ones n) = ones t"
proof -
  assume "t \<le> n"
  then have "ones n = ones t + 2 ^ t * ones (n - t)"
    using ones_add [of t "n - t"] by simp
  then show ?thesis using ones_less [of t] by (simp add: take_bit_eq_mod)
qed

lemma rh_run24_props:
  assumes "rsync mem rs" "rBitCount rs \<le> 16"
    and "take_bit (16 * a + t) (strm mem (rpos rs)) = ones (16 * a) + 2 ^ (16 * a) * x"
    and "x < ones t" "t \<le> 16" "rIp rs + 2 * a + 4 \<le> length mem"
  shows "\<exists>rs'. rh_run24 mem n0 rs = Inr (n0 + 24 * a, rs') \<and> rsync mem rs' \<and>
           rIp rs' = rIp rs + 2 * a \<and> rBitCount rs' = rBitCount rs \<and> rsame rs rs'"
  using assms
proof (induction a arbitrary: rs n0)
  case 0
  have bc: "16 + nat (rBitCount rs) \<le> 32" using "0.prems"(2) by simp
  have x: "take_bit t (strm mem (rpos rs)) = x" using "0.prems"(3) by simp
  have "take_bit 16 (unat (rBitStream rs)) \<noteq> 65535"
  proof
    assume "take_bit 16 (unat (rBitStream rs)) = 65535"
    then have "take_bit 16 (strm mem (rpos rs)) = ones 16"
      using rread [OF "0.prems"(1) bc] by (simp add: ones_16)
    then have "take_bit t (take_bit 16 (strm mem (rpos rs))) = ones t"
      using take_bit_ones [OF "0.prems"(5)] by simp
    then have "take_bit t (strm mem (rpos rs)) = ones t"
      using "0.prems"(5) by (simp add: min_def)
    then show False using x "0.prems"(4) by simp
  qed
  then show ?case using "0.prems"(1)
    by (subst rh_run24.simps) (simp add: and_ffff)
next
  case (Suc a)
  have bc: "16 + nat (rBitCount rs) \<le> 32" using Suc.prems(2) by simp
  define rest where "rest = ones (16 * a) + 2 ^ (16 * a) * x"
  have "ones (16 * Suc a) = ones 16 + 2 ^ 16 * ones (16 * a)"
    using ones_add [of 16 "16 * a"] by simp
  then have "ones (16 * Suc a) + 2 ^ (16 * Suc a) * x = ones 16 + 2 ^ 16 * rest"
    by (simp add: rest_def power_add algebra_simps)
  then have h: "take_bit (16 + (16 * a + t)) (strm mem (rpos rs)) = ones 16 + 2 ^ 16 * rest"
    using Suc.prems(3) by (simp add: add.assoc)
  note sp = split_code [OF h ones_less]
  have "take_bit 16 (unat (rBitStream rs)) = 65535"
    using rread [OF Suc.prems(1) bc] sp(1) by (simp add: ones_16)
  then have cond: "rBitStream rs AND 0xFFFF = 0xFFFF" by (simp add: and_ffff)
  have len: "rIp rs + 2 + 4 \<le> length mem" using Suc.prems(6) by simp
  from load32_val [OF len] obtain w where w: "load32 mem (rIp rs + 2) = Inr w"
    "unat w = take_bit 32 (drop_bit (8 * (rIp rs + 2)) (bytes_val mem))" by blast
  define rs1 where "rs1 = rs\<lparr>rIp := rIp rs + 2, rBitStream := drop_bit (nat (rBitCount rs)) w\<rparr>"
  have bc0: "0 \<le> rBitCount rs" using Suc.prems(1) by (simp add: rsync_def)
  have s1: "rsync mem rs1"
    using bc0 len by (simp add: rsync_def rs1_def unat_drop_bit_eq w(2) strm_def)
  have p1: "rpos rs1 = rpos rs + 16" by (simp add: rpos_def rs1_def)
  have b1: "rBitCount rs1 \<le> 16" using Suc.prems(2) by (simp add: rs1_def)
  have h1: "take_bit (16 * a + t) (strm mem (rpos rs1)) = ones (16 * a) + 2 ^ (16 * a) * x"
    using sp(2) by (simp add: p1 strm_add rest_def)
  have l1: "rIp rs1 + 2 * a + 4 \<le> length mem" using Suc.prems(6) by (simp add: rs1_def)
  from Suc.IH [OF s1 b1 h1 Suc.prems(4,5) l1, of "n0 + 24"]
  obtain rs' where r: "rh_run24 mem (n0 + 24) rs1 = Inr (n0 + 24 + 24 * a, rs')" "rsync mem rs'"
    "rIp rs' = rIp rs1 + 2 * a" "rBitCount rs' = rBitCount rs1" "rsame rs1 rs'"
    by blast
  have "rh_run24 mem n0 rs = rh_run24 mem (n0 + 24) rs1"
    using cond w(1) by (subst rh_run24.simps) (simp add: rs1_def)
  moreover have "rsame rs rs1" by (simp add: rsame_def rs1_def)
  ultimately show ?case using r rsame_trans [OF \<open>rsame rs rs1\<close> r(5)] by (simp add: rs1_def)
qed

lemma rh_run3_props:
  assumes "take_bit (2 * m + 2) (unat (rBitStream rs)) = ones (2 * m) + 2 ^ (2 * m) * r" "r < 3"
  shows "\<exists>rs'. rh_run3 n0 rs = (n0 + 3 * m, rs') \<and>
           rBitStream rs' = drop_bit (2 * m) (rBitStream rs) \<and>
           rBitCount rs' = rBitCount rs + 2 * int m \<and> rIp rs' = rIp rs \<and>
           unat (rBitStream rs' AND 3) = r \<and> rsame rs rs'"
  using assms
proof (induction m arbitrary: rs n0)
  case 0
  then have "take_bit 2 (unat (rBitStream rs)) = r" by (simp add: numeral_2_eq_2)
  then have a: "unat (rBitStream rs AND 3) = r" by (simp add: and_3)
  then have "rBitStream rs AND 3 \<noteq> 3" using "0.prems"(2) by auto
  then show ?case using a by (subst rh_run3.simps) simp
next
  case (Suc m)
  define rest where "rest = ones (2 * m) + 2 ^ (2 * m) * r"
  have "ones (2 * Suc m) = ones 2 + 2 ^ 2 * ones (2 * m)"
    using ones_add [of 2 "2 * m"] by simp
  then have "ones (2 * Suc m) + 2 ^ (2 * Suc m) * r = ones 2 + 2 ^ 2 * rest"
    by (simp add: rest_def power_add algebra_simps)
  then have h: "take_bit (2 + (2 * m + 2)) (unat (rBitStream rs)) = ones 2 + 2 ^ 2 * rest"
    using Suc.prems(1) by (simp add: add.assoc)
  note sp = split_code [OF h ones_less]
  have "unat (rBitStream rs AND 3) = 3" using sp(1) by (simp add: and_3 ones_2)
  then have cond: "rBitStream rs AND 3 = 3" by (simp add: word_unat_eq_iff)
  define rs1 where "rs1 = rs\<lparr>rBitStream := drop_bit 2 (rBitStream rs), rBitCount := rBitCount rs + 2\<rparr>"
  have h1: "take_bit (2 * m + 2) (unat (rBitStream rs1)) = ones (2 * m) + 2 ^ (2 * m) * r"
    using sp(2) by (simp add: rs1_def rest_def unat_drop_bit_eq)
  from Suc.IH [OF h1 Suc.prems(2), of "n0 + 3"]
  obtain rs' where r: "rh_run3 (n0 + 3) rs1 = (n0 + 3 + 3 * m, rs')"
    "rBitStream rs' = drop_bit (2 * m) (rBitStream rs1)"
    "rBitCount rs' = rBitCount rs1 + 2 * int m" "rIp rs' = rIp rs1"
    "unat (rBitStream rs' AND 3) = r" "rsame rs1 rs'"
    by blast
  have "rh_run3 n0 rs = rh_run3 (n0 + 3) rs1"
    using cond by (subst rh_run3.simps) (simp add: rs1_def)
  moreover have "rsame rs rs1" by (simp add: rsame_def rs1_def)
  ultimately show ?case using r rsame_trans [OF \<open>rsame rs rs1\<close> r(6)]
    by (simp add: rs1_def drop_bit_drop_bit add.commute)
qed

lemma rh_fill_props:
  assumes "charnum + z \<le> length counter"
  shows "\<exists>counter'. rh_fill (charnum + z) charnum counter = Inr (charnum + z, counter') \<and>
           length counter' = length counter \<and>
           (\<forall>i<length counter. counter' ! i = (if charnum \<le> i \<and> i < charnum + z then 0 else counter ! i))"
  using assms
proof (induction z arbitrary: charnum counter)
  case 0
  then show ?case by (subst rh_fill.simps) auto
next
  case (Suc z)
  have l: "Suc charnum + z \<le> length (counter[charnum := 0])" using Suc.prems by simp
  from Suc.IH [OF l] obtain counter' where
    c: "rh_fill (Suc charnum + z) (Suc charnum) (counter[charnum := 0]) = Inr (Suc charnum + z, counter')"
    "length counter' = length counter"
    "\<forall>i<length counter. counter' ! i =
       (if Suc charnum \<le> i \<and> i < Suc charnum + z then 0 else counter[charnum := 0] ! i)"
    by auto
  have "rh_fill (charnum + Suc z) charnum counter = Inr (charnum + Suc z, counter')"
    using Suc.prems c(1) by (subst rh_fill.simps) simp
  moreover have "\<forall>i<length counter. counter' ! i =
       (if charnum \<le> i \<and> i < charnum + Suc z then 0 else counter ! i)"
    using c(3) by (auto simp add: nth_list_update)
  ultimately show ?case using c(2) by blast
qed

lemma rh_zero_run_props:
  assumes s: "rsync mem rs" and bc: "rBitCount rs \<le> 7"
    and code: "take_bit (zlen z) (strm mem (rpos rs)) = zcode z"
    and len: "(rpos rs + zlen z) div 8 + 4 \<le> length mem"
    and cap: "rCharnum rs + z \<le> length (rCounter rs)"
  shows "\<exists>rs'. rh_zero_run mem rs = Inr rs' \<and> rsync mem rs' \<and> rpos rs' = rpos rs + zlen z \<and>
           rBitCount rs' \<le> 7 \<and> rCharnum rs' = rCharnum rs + z \<and> rPrevious0 rs' = rPrevious0 rs \<and>
           rRemaining rs' = rRemaining rs \<and> rThreshold rs' = rThreshold rs \<and>
           rNbBits rs' = rNbBits rs \<and> length (rCounter rs') = length (rCounter rs) \<and>
           (\<forall>i<length (rCounter rs). rCounter rs' ! i =
              (if rCharnum rs \<le> i \<and> i < rCharnum rs + z then 0 else rCounter rs ! i))"
proof -
  define k where "k = rCharnum rs"
  define a where "a = z div 24"
  define m where "m = z mod 24 div 3"
  define r where "r = z mod 3"
  define t where "t = 2 * m + 2"
  define x where "x = ones (2 * m) + 2 ^ (2 * m) * r"
  have m7: "m \<le> 7" by (simp add: m_def)
  have r3: "r < 3" by (simp add: r_def)
  have t16: "t \<le> 16" using m7 by (simp add: t_def)
  have zl: "zlen z = 16 * a + t" by (simp add: zlen_def a_def m_def t_def)
  have zc: "zcode z = ones (16 * a) + 2 ^ (16 * a) * x"
  proof -
    have "zcode z = ones (16 * a + 2 * m) + 2 ^ (16 * a + 2 * m) * r"
      by (simp add: zcode_def a_def m_def r_def)
    also have "\<dots> = ones (16 * a) + 2 ^ (16 * a) * ones (2 * m) + 2 ^ (16 * a) * (2 ^ (2 * m) * r)"
      by (simp only: ones_add power_add mult.assoc)
    also have "\<dots> = ones (16 * a) + 2 ^ (16 * a) * x"
      by (simp only: distrib_left add.assoc x_def)
    finally show ?thesis .
  qed
  have "ones t = ones (2 * m) + 2 ^ (2 * m) * 3"
    using ones_add [of "2 * m" 2] by (simp add: t_def ones_2)
  then have xt: "x < ones t" using r3 by (simp add: x_def)
  have bc0: "0 \<le> rBitCount rs" using s by (simp add: rsync_def)
  have bc16: "rBitCount rs \<le> 16" using bc by simp
  have c1: "take_bit (16 * a + t) (strm mem (rpos rs)) = ones (16 * a) + 2 ^ (16 * a) * x"
    using code by (simp add: zl zc)
  have l1: "rIp rs + 2 * a + 4 \<le> length mem"
    using len by (simp add: rpos_def zl)
  from rh_run24_props [OF s bc16 c1 xt t16 l1, of k]
  obtain rs1 where r1: "rh_run24 mem k rs = Inr (k + 24 * a, rs1)" "rsync mem rs1"
    "rIp rs1 = rIp rs + 2 * a" "rBitCount rs1 = rBitCount rs" "rsame rs rs1"
    by blast
  have p1: "rpos rs1 = rpos rs + 16 * a" by (simp add: rpos_def r1(3,4))
  have "take_bit t (strm mem (rpos rs1)) = x"
    using split_code(2) [OF c1 ones_less] by (simp add: p1 strm_add)
  moreover have "t + nat (rBitCount rs1) \<le> 32" using t16 bc by (simp add: r1(4))
  ultimately have c2: "take_bit (2 * m + 2) (unat (rBitStream rs1)) = ones (2 * m) + 2 ^ (2 * m) * r"
    using rread [OF r1(2), of t] by (simp add: t_def x_def)
  from rh_run3_props [OF c2 r3, of "k + 24 * a"]
  obtain rs2 where r2: "rh_run3 (k + 24 * a) rs1 = (k + 24 * a + 3 * m, rs2)"
    "rBitStream rs2 = drop_bit (2 * m) (rBitStream rs1)"
    "rBitCount rs2 = rBitCount rs1 + 2 * int m" "rIp rs2 = rIp rs1"
    "unat (rBitStream rs2 AND 3) = r" "rsame rs1 rs2"
    by blast
  have same: "rsame rs rs2" using rsame_trans [OF r1(5) r2(6)] .
  have n0: "k + 24 * a + 3 * m + r = k + z"
    using zdecomp [of z] by (simp add: a_def m_def r_def)
  have cap2: "k + z \<le> length (rCounter rs2)" using cap same by (simp add: rsame_def k_def)
  from rh_fill_props [OF cap2] obtain counter' where
    f: "rh_fill (k + z) k (rCounter rs2) = Inr (k + z, counter')"
    "length counter' = length (rCounter rs2)"
    "\<forall>i<length (rCounter rs2). counter' ! i = (if k \<le> i \<and> i < k + z then 0 else rCounter rs2 ! i)"
    by blast
  define rs3 where "rs3 = rs2\<lparr>rBitCount := rBitCount rs2 + 2, rCharnum := k + z, rCounter := counter'\<rparr>"
  have bc3: "0 \<le> rBitCount rs3" using bc0 by (simp add: rs3_def r2(3) r1(4))
  have p3: "rpos rs3 = rpos rs + zlen z"
    using bc0 by (simp add: rpos_def rs3_def r2(3,4) r1(3,4) zl t_def nat_add_distrib)
  have l3: "rpos rs3 div 8 + 4 \<le> length mem" using len by (simp add: p3)
  from rh_reload_props [OF bc3 l3]
  obtain rs' where r': "rh_reload mem rs3 = Inr rs'" "rsync mem rs'" "rpos rs' = rpos rs3"
    "rBitCount rs' \<le> 7" "rsame rs3 rs'"
    by blast
  have k2: "rCharnum rs2 = k" using same by (simp add: rsame_def k_def)
  have "rh_zero_run mem rs = Inr rs'"
    using r1(1) r2(1) f(1) r'(1)
    by (simp add: rh_zero_run_def Let_def k_def [symmetric] r2(5) n0 k2 rs3_def)
  moreover have "rCharnum rs' = rCharnum rs + z \<and> rPrevious0 rs' = rPrevious0 rs \<and>
           rRemaining rs' = rRemaining rs \<and> rThreshold rs' = rThreshold rs \<and>
           rNbBits rs' = rNbBits rs \<and> rCounter rs' = counter' \<and> rCounter rs2 = rCounter rs"
    using same r'(5) by (simp add: rsame_def rs3_def k_def)
  ultimately show ?thesis using r'(2,3,4) p3 f(2,3) by (simp add: k_def)
qed

lemma decode_count:
  assumes "0 \<le> cnt" "cnt \<le> rem" "1 \<le> nb" "th = 2 ^ nat (nb - 1)" "th \<le> rem" "rem < 2 * th"
    and "take_bit (nat (clen nb th rem cnt)) s = nat (ccode th rem cnt)"
  shows "int (take_bit (nat (nb - 1)) s) < cmax th rem \<longleftrightarrow> ccode th rem cnt < cmax th rem"
    and "ccode th rem cnt < cmax th rem \<Longrightarrow> int (take_bit (nat (nb - 1)) s) = cnt"
    and "\<not> ccode th rem cnt < cmax th rem \<Longrightarrow> int (take_bit (nat nb) s) = ccode th rem cnt"
    and "th \<le> ccode th rem cnt \<longleftrightarrow> th \<le> cnt"
proof -
  note b = ccode_bounds [OF assms(1-6)]
  have th1: "1 \<le> th" using assms(4) by simp
  have nbS: "nat nb = Suc (nat (nb - 1))" using assms(3) by simp
  have thn: "(2 :: nat) ^ nat (nb - 1) = nat th" using assms(4) by (simp add: nat_power_eq)
  show e: "th \<le> ccode th rem cnt \<longleftrightarrow> th \<le> cnt"
    using b(1) by (auto simp add: ccode_def)
  have small: "int (take_bit (nat (nb - 1)) s) = cnt" if c: "ccode th rem cnt < cmax th rem"
  proof -
    have "cnt < th" using c b(1,2) by (auto simp add: ccode_def split: if_splits)
    then have "ccode th rem cnt = cnt" by (simp add: ccode_def)
    moreover have "clen nb th rem cnt = nb - 1" using c by (simp add: clen_def)
    ultimately show ?thesis using assms(7,1) by simp
  qed
  then show "ccode th rem cnt < cmax th rem \<Longrightarrow> int (take_bit (nat (nb - 1)) s) = cnt" .
  have big: "int (take_bit (nat nb) s) = ccode th rem cnt" if c: "\<not> ccode th rem cnt < cmax th rem"
  proof -
    have "clen nb th rem cnt = nb" using c by (simp add: clen_def)
    then show ?thesis using assms(7) b(3) by simp
  qed
  then show "\<not> ccode th rem cnt < cmax th rem \<Longrightarrow> int (take_bit (nat nb) s) = ccode th rem cnt" .
  show "int (take_bit (nat (nb - 1)) s) < cmax th rem \<longleftrightarrow> ccode th rem cnt < cmax th rem"
  proof (cases "ccode th rem cnt < cmax th rem")
    case True
    have "cnt < th" using True b(1,2) by (auto simp add: ccode_def split: if_splits)
    then have "ccode th rem cnt = cnt" by (simp add: ccode_def)
    then show ?thesis using True small [OF True] by simp
  next
    case False
    have "take_bit (nat (nb - 1)) s = take_bit (nat (nb - 1)) (take_bit (nat nb) s)"
      by (simp add: nbS min_def)
    also have "\<dots> = nat (ccode th rem cnt) mod nat th"
    proof -
      have "nat (int (take_bit (nat nb) s)) = nat (ccode th rem cnt)"
        by (simp only: big [OF False])
      then have "take_bit (nat nb) s = nat (ccode th rem cnt)" by (simp only: nat_int)
      then show ?thesis by (simp add: take_bit_eq_mod thn)
    qed
    finally have "int (take_bit (nat (nb - 1)) s) = ccode th rem cnt mod th"
      using b(3) th1 by (simp add: zmod_int)
    moreover have "cmax th rem \<le> ccode th rem cnt mod th"
    proof (cases "th \<le> cnt")
      case True
      have lt: "ccode th rem cnt < 2 * th" using assms(2,5,6) by (simp add: ccode_def cmax_def)
      have ge: "th \<le> ccode th rem cnt" using True e by simp
      have "(ccode th rem cnt - th) mod th = ccode th rem cnt - th"
        using lt ge by (intro mod_pos_pos_trivial) simp_all
      then have "ccode th rem cnt mod th = ccode th rem cnt - th" by simp
      then show ?thesis using True by (simp add: ccode_def)
    next
      case False
      then have "ccode th rem cnt = cnt" by (simp add: ccode_def)
      moreover have "cnt mod th = cnt" using False assms(1) by simp
      ultimately show ?thesis using \<open>\<not> ccode th rem cnt < cmax th rem\<close> by simp
    qed
    ultimately show ?thesis using False by simp
  qed
qed

lemma word_small:
  assumes "0 \<le> x" "x < 2 ^ 31"
  shows "unat (word_of_int x :: u32) = nat x" "sint (word_of_int x :: u32) = x"
proof -
  have "x < 2 ^ 32" using assms(2) by simp
  then show "unat (word_of_int x :: u32) = nat x"
    using assms(1) by (simp add: unat_eq_nat_uint uint_word_of_int take_bit_int_eq_self)
  show "sint (word_of_int x :: u32) = x"
    using assms by (simp add: sint_uint uint_word_of_int take_bit_int_eq_self signed_take_bit_int_eq_self)
qed

lemma sint_small: "uint (w :: u32) < 2 ^ 31 \<Longrightarrow> sint w = uint w"
proof -
  assume a: "uint w < 2 ^ 31"
  have "- (2 ^ 31) \<le> uint w" by (rule order_trans [of _ 0]) simp_all
  from signed_take_bit_int_eq_self [OF this a] show ?thesis by (simp add: sint_uint)
qed

lemma word_of_int_mask: "(word_of_int (2 ^ k - 1) :: u32) = mask k"
  by (simp add: mask_eq_exp_minus_1)

lemma rh_count_props:
  assumes s: "rsync mem rs" and bc: "rBitCount rs \<le> 7"
    and cnt: "0 \<le> cnt" "cnt \<le> rRemaining rs"
    and nb: "1 \<le> rNbBits rs" "rNbBits rs \<le> 13"
    and th: "rThreshold rs = 2 ^ nat (rNbBits rs - 1)" "rThreshold rs \<le> rRemaining rs"
      "rRemaining rs < 2 * rThreshold rs"
    and code: "take_bit (nat (clen (rNbBits rs) (rThreshold rs) (rRemaining rs) cnt)) (strm mem (rpos rs))
               = nat (ccode (rThreshold rs) (rRemaining rs) cnt)"
    and len: "(rpos rs + nat (clen (rNbBits rs) (rThreshold rs) (rRemaining rs) cnt)) div 8 + 4
              \<le> length mem"
    and cap: "rCharnum rs < length (rCounter rs)"
    and hh: "header_halve (rRemaining rs - cnt) (rNbBits rs) (rThreshold rs) = Some (nb', th')"
  shows "\<exists>rs'. rh_count mem rs = Some (Inr rs') \<and> rsync mem rs' \<and>
           rpos rs' = rpos rs + nat (clen (rNbBits rs) (rThreshold rs) (rRemaining rs) cnt) \<and>
           rBitCount rs' \<le> 7 \<and> rCharnum rs' = rCharnum rs + 1 \<and> rPrevious0 rs' = (cnt = 0) \<and>
           rRemaining rs' = rRemaining rs - cnt \<and> rThreshold rs' = th' \<and> rNbBits rs' = nb' \<and>
           rCounter rs' = (rCounter rs)[rCharnum rs := word_of_int cnt]"
proof -
  define nbb where "nbb = rNbBits rs"
  define thr where "thr = rThreshold rs"
  define rem where "rem = rRemaining rs"
  define bs where "bs = rBitStream rs"
  define c where "c = ccode thr rem cnt"
  define mx where "mx = cmax thr rem"
  define l where "l = clen nbb thr rem cnt"
  define st where "st = strm mem (rpos rs)"
  note th' = th [folded nbb_def thr_def rem_def]
  note nb' = nb [folded nbb_def]
  note cnt' = cnt [folded rem_def]
  note b = ccode_bounds [OF cnt' nb'(1) th', folded c_def mx_def l_def]
  note d = decode_count [OF cnt' nb'(1) th' code [folded nbb_def thr_def rem_def st_def],
      folded c_def mx_def]
  have bc0: "0 \<le> rBitCount rs" using s by (simp add: rsync_def)
  have thr12: "thr \<le> 2 ^ 12"
    unfolding th'(1) using nb' by (intro power_increasing) simp_all
  have rd1: "take_bit (nat (nbb - 1)) (unat bs) = take_bit (nat (nbb - 1)) st"
    unfolding bs_def st_def using bc bc0 nb' by (intro rread [OF s]) simp
  have rd2: "take_bit (nat nbb) (unat bs) = take_bit (nat nbb) st"
    unfolding bs_def st_def using bc bc0 nb' by (intro rread [OF s]) simp
  have m1: "(word_of_int (thr - 1) :: u32) = mask (nat (nbb - 1))"
    unfolding th'(1) by (rule word_of_int_mask)
  have "nat nbb = Suc (nat (nbb - 1))" using nb'(1) by simp
  then have "2 * thr = 2 ^ nat nbb" using th'(1) by simp
  then have m2: "(word_of_int (2 * thr - 1) :: u32) = mask (nat nbb)"
    by (simp only: word_of_int_mask)
  have low: "unat (bs AND word_of_int (thr - 1)) = take_bit (nat (nbb - 1)) st"
    by (simp only: m1 and_mask_unat rd1)
  have big: "unat (bs AND word_of_int (2 * thr - 1)) = take_bit (nat nbb) st"
    by (simp only: m2 and_mask_unat rd2)
  have mx31: "mx < 2 ^ 31" using b(2) thr12 by simp
  have umx: "unat (word_of_int mx :: u32) = nat mx" using word_small(1) [OF b(1) mx31] .
  have cond: "(bs AND word_of_int (thr - 1) < (word_of_int mx :: u32)) \<longleftrightarrow> c < mx"
    unfolding word_less_nat_alt low umx zless_nat_eq_int_zless by (rule d(1))
  have cnt31: "cnt < 2 ^ 31" using cnt'(2) th'(3) thr12 by simp
  define count where "count = (if bs AND word_of_int (thr - 1) < (word_of_int mx :: u32)
      then sint (bs AND word_of_int (thr - 1))
      else let count = sint (bs AND word_of_int (2 * thr - 1))
           in if count \<ge> thr then sint (word_of_int count - (word_of_int mx :: u32)) else count)"
  have count: "count = cnt"
  proof (cases "c < mx")
    case True
    have "uint (bs AND word_of_int (thr - 1)) = cnt"
      using d(2) [OF True] low by (simp add: uint_nat)
    then have "sint (bs AND word_of_int (thr - 1)) = cnt"
      using sint_small [of "bs AND word_of_int (thr - 1)"] cnt31 by simp
    then show ?thesis using True cond by (simp add: count_def)
  next
    case False
    have u: "uint (bs AND word_of_int (2 * thr - 1)) = c"
      using d(3) [OF False] big by (simp add: uint_nat)
    have "c < 2 * thr" using b(4,6) nb' \<open>2 * thr = 2 ^ nat nbb\<close> False by (simp add: l_def clen_def c_def mx_def)
    then have "c < 2 ^ 31" using thr12 by simp
    then have sv: "sint (bs AND word_of_int (2 * thr - 1)) = c"
      using sint_small [of "bs AND word_of_int (2 * thr - 1)"] u by simp
    show ?thesis
    proof (cases "thr \<le> cnt")
      case True
      then have "c - mx = cnt" by (simp add: c_def ccode_def mx_def)
      then have "word_of_int c - (word_of_int mx :: u32) = word_of_int cnt"
        by (simp only: wi_hom_sub)
      then have "sint (word_of_int c - (word_of_int mx :: u32)) = cnt"
        by (simp only: word_small(2) [OF cnt'(1) cnt31])
      then show ?thesis using True False cond d(4) sv by (simp add: count_def Let_def)
    next
      case nt: False
      then have "c = cnt" by (simp add: c_def ccode_def)
      then show ?thesis using nt False cond d(4) sv by (simp add: count_def Let_def)
    qed
  qed
  define bitCount where "bitCount = (if bs AND word_of_int (thr - 1) < (word_of_int mx :: u32)
      then rBitCount rs + (nbb - 1) else rBitCount rs + nbb)"
  have bitCount: "bitCount = rBitCount rs + l"
    using cond by (simp add: bitCount_def l_def clen_def c_def mx_def)
  define rs1 where "rs1 = rs\<lparr>rBitCount := rBitCount rs + l, rCharnum := rCharnum rs + 1,
      rPrevious0 := (cnt = 0), rRemaining := rem - cnt, rThreshold := th', rNbBits := nb',
      rCounter := (rCounter rs)[rCharnum rs := word_of_int cnt]\<rparr>"
  have bc1: "0 \<le> rBitCount rs1" using bc0 b(5) by (simp add: rs1_def)
  have p1: "rpos rs1 = rpos rs + nat l" using bc0 b(5) by (simp add: rpos_def rs1_def nat_add_distrib)
  have l1: "rpos rs1 div 8 + 4 \<le> length mem"
    using len by (simp add: p1 l_def nbb_def thr_def rem_def)
  from rh_reload_props [OF bc1 l1]
  obtain rs' where r': "rh_reload mem rs1 = Inr rs'" "rsync mem rs'" "rpos rs' = rpos rs1"
    "rBitCount rs' \<le> 7" "rsame rs1 rs'"
    by blast
  have pair: "(if bs AND word_of_int (thr - 1) < (word_of_int mx :: u32)
       then (sint (bs AND word_of_int (thr - 1)), rBitCount rs + (nbb - 1))
       else (if sint (bs AND word_of_int (2 * thr - 1)) \<ge> thr
             then sint (word_of_int (sint (bs AND word_of_int (2 * thr - 1))) - (word_of_int mx :: u32))
             else sint (bs AND word_of_int (2 * thr - 1)),
             rBitCount rs + nbb)) = (count, bitCount)"
    by (simp add: count_def bitCount_def Let_def)
  have "rh_count mem rs = Some (rh_reload mem rs1)"
    unfolding rh_count_def Let_def
    unfolding nbb_def [symmetric] thr_def [symmetric] rem_def [symmetric] bs_def [symmetric]
      cmax_def [symmetric] mx_def [symmetric]
    unfolding pair count bitCount
    using cap hh by (simp add: rs1_def nbb_def thr_def rem_def)
  then have "rh_count mem rs = Some (Inr rs')" by (simp add: r'(1))
  moreover have "rCharnum rs' = rCharnum rs + 1 \<and> rPrevious0 rs' = (cnt = 0) \<and>
           rRemaining rs' = rRemaining rs - cnt \<and> rThreshold rs' = th' \<and> rNbBits rs' = nb' \<and>
           rCounter rs' = (rCounter rs)[rCharnum rs := word_of_int cnt]"
    using r'(5) by (simp add: rsame_def rs1_def rem_def)
  ultimately show ?thesis using r'(2,3,4) p1 by (simp add: l_def nbb_def thr_def rem_def)
qed

subsection \<open>The two loops in step\<close>

lemma sim_refl: "sim N st st (\<lambda>mem rs. Some (Inr rs))"
  unfolding sim_def by (intro exI [of _ 0] conjI wstep_refl) simp

lemma sim_trans:
  assumes "sim N st st' f" "sim N st' st'' g"
    and h: "\<And>mem rs rs'. sync N mem st rs \<Longrightarrow> f mem rs = Some (Inr rs') \<Longrightarrow> h mem rs = g mem rs'"
  shows "sim N st st'' h"
proof -
  from assms(1) obtain c1 l1 where 1: "wstep st st' c1 l1"
    "\<And>mem rs. sync N mem st rs \<Longrightarrow> take_bit l1 (strm mem (wB st)) = c1 \<Longrightarrow>
        wB st' div 8 + 4 \<le> length mem \<Longrightarrow> length N \<le> length (rCounter rs) \<Longrightarrow>
        \<exists>rs'. f mem rs = Some (Inr rs') \<and> sync N mem st' rs' \<and>
           length (rCounter rs') = length (rCounter rs)"
    unfolding sim_def by blast
  from assms(2) obtain c2 l2 where 2: "wstep st' st'' c2 l2"
    "\<And>mem rs. sync N mem st' rs \<Longrightarrow> take_bit l2 (strm mem (wB st')) = c2 \<Longrightarrow>
        wB st'' div 8 + 4 \<le> length mem \<Longrightarrow> length N \<le> length (rCounter rs) \<Longrightarrow>
        \<exists>rs'. g mem rs = Some (Inr rs') \<and> sync N mem st'' rs' \<and>
           length (rCounter rs') = length (rCounter rs)"
    unfolding sim_def by blast
  have "\<exists>rs'. h mem rs = Some (Inr rs') \<and> sync N mem st'' rs' \<and>
           length (rCounter rs') = length (rCounter rs)"
    if a: "sync N mem st rs" "take_bit (l1 + l2) (strm mem (wB st)) = c1 + 2 ^ l1 * c2"
      "wB st'' div 8 + 4 \<le> length mem" "length N \<le> length (rCounter rs)" for mem rs
  proof -
    have c1: "c1 < 2 ^ l1" using 1(1) by (simp add: wstep_def)
    note sp = split_code [OF a(2) c1]
    have B: "wB st' = wB st + l1" "wB st'' = wB st' + l2" using 1(1) 2(1) by (simp_all add: wstep_def)
    have m1: "wB st' div 8 + 4 \<le> length mem" using a(3) B by (simp add: div_le_mono le_trans [rotated])
    from 1(2) [OF a(1) sp(1) m1 a(4)] obtain rs' where
      r1: "f mem rs = Some (Inr rs')" "sync N mem st' rs'" "length (rCounter rs') = length (rCounter rs)"
      by blast
    have c2: "take_bit l2 (strm mem (wB st')) = c2" using sp(2) by (simp add: B strm_add)
    from 2(2) [OF r1(2) c2 a(3)] a(4) r1(3) obtain rs'' where
      r2: "g mem rs' = Some (Inr rs'')" "sync N mem st'' rs''"
      "length (rCounter rs'') = length (rCounter rs')"
      by auto
    show ?thesis using h [OF a(1) r1(1)] r2 r1(3) by simp
  qed
  then show ?thesis unfolding sim_def
    by (intro exI [of _ "c1 + 2 ^ l1 * c2"] exI [of _ "l1 + l2"] conjI wstep_trans [OF 1(1) 2(1)]) blast
qed

lemma sim_cong:
  assumes "sim N st st' f" "\<And>mem rs. sync N mem st rs \<Longrightarrow> g mem rs = f mem rs"
  shows "sim N st st' g"
  by (rule sim_trans [OF assms(1) sim_refl]) (simp add: assms(2))

lemma wv_less: "wf_w st \<Longrightarrow> wv st < 2 ^ wB st"
proof -
  assume "wf_w st"
  then have "unat (wBitStream st) + 1 \<le> 2 ^ nat (wBitCount st)" by (simp add: wf_w_def)
  then have "2 ^ (8 * length (wOut st)) * (unat (wBitStream st) + 1)
             \<le> 2 ^ (8 * length (wOut st)) * 2 ^ nat (wBitCount st)"
    by (rule mult_le_mono2)
  then show ?thesis using bytes_val_less [of "wOut st"]
    by (simp add: wv_def wB_def power_add)
qed

lemma first_nonzero_list:
  "0 < sum_list (map unat (xs :: u32 list)) \<Longrightarrow>
   \<exists>z<length xs. xs ! z \<noteq> 0 \<and> (\<forall>i<z. xs ! i = 0)"
proof (induction xs)
  case Nil
  then show ?case by simp
next
  case (Cons x xs)
  show ?case
  proof (cases "x = 0")
    case False
    then show ?thesis by (intro exI [of _ 0]) simp
  next
    case True
    then obtain z where z: "z < length xs" "xs ! z \<noteq> 0" "\<forall>i<z. xs ! i = 0"
      using Cons by auto
    show ?thesis using z True by (intro exI [of _ "Suc z"]) (auto simp add: nth_Cons split: nat.splits)
  qed
qed

lemma first_nonzero:
  assumes "0 < sum_list (map unat (drop k (N :: u32 list)))"
  shows "\<exists>z. k + z < length N \<and> N ! (k + z) \<noteq> 0 \<and> (\<forall>i<z. N ! (k + i) = 0)"
proof -
  from first_nonzero_list [OF assms] obtain z where
    z: "z < length (drop k N)" "drop k N ! z \<noteq> 0" "\<forall>i<z. drop k N ! i = 0" by blast
  then show ?thesis by (intro exI [of _ z]) (auto simp add: less_diff_conv add.commute)
qed

lemma sum_skip_zeros:
  assumes "k + z \<le> length (N :: u32 list)" "\<forall>i<z. N ! (k + i) = 0"
  shows "sum_list (map unat (drop k N)) = sum_list (map unat (drop (k + z) N))"
  using assms
proof (induction z arbitrary: k)
  case 0
  then show ?case by simp
next
  case (Suc z)
  have d: "drop k N = N ! k # drop (Suc k) N" using Suc.prems(1) by (simp add: Cons_nth_drop_Suc)
  have z: "N ! k = 0" using Suc.prems(2) [rule_format, of 0] by simp
  have "\<forall>i<z. N ! (Suc k + i) = 0" using Suc.prems(2) by (metis Suc_less_eq add_Suc_shift)
  from Suc.IH [of "Suc k", OF _ this] Suc.prems(1)
  show ?case by (simp add: d z)
qed

lemma sum_drop_step:
  "k < length (N :: u32 list) \<Longrightarrow>
   sum_list (map unat (drop k N)) = unat (N ! k) + sum_list (map unat (drop (Suc k) N))"
  by (simp flip: Cons_nth_drop_Suc)

lemma zphase:
  assumes inv: "winv N st" and pos: "0 < wRemaining st"
  shows "\<exists>st1. wh_zero_run N st = Inr st1 \<and> winv N st1 \<and> wPrevious0 st1 = wPrevious0 st \<and>
           wRemaining st1 = wRemaining st \<and> wCharnum st \<le> wCharnum st1 \<and>
           sim N st st1 (\<lambda>mem rs. Some (rh_zero_run mem rs))"
proof -
  define k where "k = wCharnum st"
  have wf: "wf_w st" and rem: "wRemaining st = int (sum_list (map unat (drop k N)))"
    and h: "hinv st"
    using inv pos by (simp_all add: winv_def k_def)
  from first_nonzero [of k N] pos rem obtain z where
    z: "k + z < length N" "N ! (k + z) \<noteq> 0" "\<forall>i<z. N ! (k + i) = 0" by auto
  from wh_zero_run_props [OF wf z [unfolded k_def]]
  obtain st1 where w: "wh_zero_run N st = Inr st1" "wstep st st1 (zcode z) (zlen z)" "wf_w st1"
    "wCharnum st1 = k + z" "wPrevious0 st1 = wPrevious0 st" "wRemaining st1 = wRemaining st"
    "wThreshold st1 = wThreshold st" "wNbBits st1 = wNbBits st"
    unfolding k_def by blast
  have "sum_list (map unat (drop k N)) = sum_list (map unat (drop (k + z) N))"
    using sum_skip_zeros [of k z N] z by simp
  then have rem1: "wRemaining st1 = int (sum_list (map unat (drop (wCharnum st1) N)))"
    using w(4,6) rem by simp
  have h1: "hinv st1" using h unfolding hinv_def w(6,7,8) .
  have inv1: "winv N st1"
    unfolding winv_def
  proof (intro conjI impI)
    show "wf_w st1" by fact
    show "wCharnum st1 \<le> length N" using w(4) z(1) by simp
    show "wRemaining st1 = int (sum_list (map unat (drop (wCharnum st1) N)))" by fact
    show "hinv st1" by fact
  qed
  have B1: "wB st1 = wB st + zlen z" using w(2) by (simp add: wstep_def)
  have "\<exists>rs'. Some (rh_zero_run mem rs) = Some (Inr rs') \<and> sync N mem st1 rs' \<and>
           length (rCounter rs') = length (rCounter rs)"
    if a: "sync N mem st rs" "take_bit (zlen z) (strm mem (wB st)) = zcode z"
      "wB st1 div 8 + 4 \<le> length mem" "length N \<le> length (rCounter rs)" for mem rs
  proof -
    have s: "rsync mem rs" "rpos rs = wB st" "rBitCount rs \<le> 7" "rCharnum rs = k"
      "\<forall>i<k. rCounter rs ! i = N ! i"
      using a(1) by (simp_all add: sync_def k_def)
    have code: "take_bit (zlen z) (strm mem (rpos rs)) = zcode z" using a(2) s(2) by simp
    have len: "(rpos rs + zlen z) div 8 + 4 \<le> length mem" using a(3) by (simp add: s(2) B1)
    have cap: "rCharnum rs + z \<le> length (rCounter rs)" using z(1) a(4) s(4) by simp
    from rh_zero_run_props [OF s(1,3) code len cap]
    obtain rs' where r: "rh_zero_run mem rs = Inr rs'" "rsync mem rs'" "rpos rs' = rpos rs + zlen z"
      "rBitCount rs' \<le> 7" "rCharnum rs' = rCharnum rs + z" "rPrevious0 rs' = rPrevious0 rs"
      "rRemaining rs' = rRemaining rs" "rThreshold rs' = rThreshold rs" "rNbBits rs' = rNbBits rs"
      "length (rCounter rs') = length (rCounter rs)"
      "\<forall>i<length (rCounter rs). rCounter rs' ! i =
              (if rCharnum rs \<le> i \<and> i < rCharnum rs + z then 0 else rCounter rs ! i)"
      by blast
    have "rCounter rs' ! i = N ! i" if i: "i < k + z" for i
    proof (cases "i < k")
      case True
      then show ?thesis using r(11) s(4,5) cap i by simp
    next
      case False
      have "i - k < z" using False i by simp
      then have "N ! (k + (i - k)) = 0" using z(3) by blast
      then have "N ! i = 0" using False by simp
      then show ?thesis using r(11) s(4) cap i False by simp
    qed
    then have "sync N mem st1 rs'"
      using r a(1) w by (simp add: sync_def B1 k_def)
    then show ?thesis using r(1,10) by simp
  qed
  then have "sim N st st1 (\<lambda>mem rs. Some (rh_zero_run mem rs))"
    unfolding sim_def by (intro exI [of _ "zcode z"] exI [of _ "zlen z"] conjI w(2)) blast
  then show ?thesis using w inv1 by (simp add: k_def)
qed

lemma cphase:
  assumes inv: "winv N st" and pos: "0 < wRemaining st"
  shows "\<exists>st2. wh_count N st = Some (Inr st2) \<and> winv N st2 \<and> wCharnum st2 = wCharnum st + 1 \<and>
           (wRemaining st2 = 0 \<longrightarrow> wfin N st2) \<and> sim N st st2 rh_count"
proof -
  define k where "k = wCharnum st"
  define cnt where "cnt = uint (N ! k)"
  have wf: "wf_w st" and rem: "wRemaining st = int (sum_list (map unat (drop k N)))"
    and h: "hinv st"
    using inv pos by (simp_all add: winv_def k_def)
  have nb: "1 \<le> wNbBits st" "wNbBits st \<le> 13"
    and th: "wThreshold st = 2 ^ nat (wNbBits st - 1)" "wThreshold st \<le> wRemaining st"
      "wRemaining st < 2 * wThreshold st"
    using h by (simp_all add: hinv_def)
  have kl: "k < length N"
  proof (rule ccontr)
    assume "\<not> k < length N"
    then have "drop k N = []" by simp
    then show False using pos rem by simp
  qed
  have rem2: "wRemaining st = cnt + int (sum_list (map unat (drop (Suc k) N)))"
    using sum_drop_step [OF kl] rem by (simp add: cnt_def)
  have c0: "0 \<le> cnt" by (simp add: cnt_def)
  have c1: "cnt \<le> wRemaining st" using rem2 by simp
  have "wThreshold st \<le> 2 ^ 12"
    unfolding th(1) using nb by (intro power_increasing) simp_all
  then have "cnt < 2 ^ 31" using c1 th(3) by simp
  then have sc: "sint (N ! wCharnum st) = cnt"
    using sint_small [of "N ! k"] by (simp add: cnt_def k_def)
  from wh_count_props [OF wf kl [unfolded k_def] sc c0 c1 nb th]
  obtain st2 nb' th' where w: "wh_count N st = Some (Inr st2)"
    "header_halve (wRemaining st - cnt) (wNbBits st) (wThreshold st) = Some (nb', th')"
    "wstep st st2 (nat (ccode (wThreshold st) (wRemaining st) cnt))
             (nat (clen (wNbBits st) (wThreshold st) (wRemaining st) cnt))"
    "wf_w st2" "wCharnum st2 = wCharnum st + 1" "wPrevious0 st2 = (cnt = 0)"
    "wRemaining st2 = wRemaining st - cnt" "wThreshold st2 = th'" "wNbBits st2 = nb'"
    by blast
  have r: "0 \<le> wRemaining st - cnt" "wRemaining st - cnt < 2 * wThreshold st"
    using c0 c1 th by simp_all
  from header_halve_total [OF nb(1) th(1) r] w(2)
  have hh: "nb' \<le> wNbBits st" "wRemaining st - cnt < wThreshold st \<longrightarrow> nb' < wNbBits st"
    "0 < wRemaining st - cnt \<longrightarrow> 1 \<le> nb' \<and> th' = 2 ^ nat (nb' - 1) \<and> th' \<le> wRemaining st - cnt \<and>
       wRemaining st - cnt < 2 * th'"
    by auto
  have rem': "wRemaining st2 = int (sum_list (map unat (drop (wCharnum st2) N)))"
    using w(5,7) rem2 by (simp add: k_def)
  have inv2: "winv N st2"
    unfolding winv_def
  proof (intro conjI impI)
    show "wf_w st2" by fact
    show "wCharnum st2 \<le> length N" using w(5) kl by (simp add: k_def)
    show "wRemaining st2 = int (sum_list (map unat (drop (wCharnum st2) N)))" by fact
    assume "0 < wRemaining st2"
    then have "0 < wRemaining st - cnt" by (simp only: w(7))
    with hh(1,3) nb(2) show "hinv st2" unfolding hinv_def w(7,8,9) by auto
  qed
  have fin: "wfin N st2" if "wRemaining st2 = 0"
  proof -
    have "cnt = wRemaining st" using that w(7) by simp
    then have "N ! k \<noteq> 0" using pos by (auto simp add: cnt_def)
    moreover have "1 \<le> wThreshold st" using th(1) by simp
    then have "nb' < wNbBits st" using hh(2) that w(7) by simp
    ultimately show ?thesis using w(5,9) nb(2) by (simp add: wfin_def k_def)
  qed
  define l where "l = nat (clen (wNbBits st) (wThreshold st) (wRemaining st) cnt)"
  have B2: "wB st2 = wB st + l" using w(3) by (simp add: wstep_def l_def)
  have "\<exists>rs'. rh_count mem rs = Some (Inr rs') \<and> sync N mem st2 rs' \<and>
           length (rCounter rs') = length (rCounter rs)"
    if a: "sync N mem st rs"
      "take_bit l (strm mem (wB st)) = nat (ccode (wThreshold st) (wRemaining st) cnt)"
      "wB st2 div 8 + 4 \<le> length mem" "length N \<le> length (rCounter rs)" for mem rs
  proof -
    have s: "rsync mem rs" "rpos rs = wB st" "rBitCount rs \<le> 7" "rCharnum rs = k"
      "rRemaining rs = wRemaining st" "rThreshold rs = wThreshold st" "rNbBits rs = wNbBits st"
      "\<forall>i<k. rCounter rs ! i = N ! i"
      using a(1) by (simp_all add: sync_def k_def)
    have cap: "rCharnum rs < length (rCounter rs)" using kl a(4) s(4) by simp
    from rh_count_props [of mem rs cnt nb' th'] s(1,3) c0 c1 nb th a(2,3) cap w(2)
    obtain rs' where r: "rh_count mem rs = Some (Inr rs')" "rsync mem rs'"
      "rpos rs' = rpos rs + l" "rBitCount rs' \<le> 7" "rCharnum rs' = rCharnum rs + 1"
      "rPrevious0 rs' = (cnt = 0)" "rRemaining rs' = rRemaining rs - cnt" "rThreshold rs' = th'"
      "rNbBits rs' = nb'" "rCounter rs' = (rCounter rs)[rCharnum rs := word_of_int cnt]"
      unfolding s(2,5,6,7) l_def B2 by blast
    have "rCounter rs' ! i = N ! i" if i: "i < k + 1" for i
    proof (cases "i = k")
      case True
      then show ?thesis using cap s(4) by (simp add: r(10) cnt_def)
    next
      case False
      then show ?thesis using i s(4,8) by (simp add: r(10))
    qed
    then have "sync N mem st2 rs'"
      using r s w by (simp add: sync_def B2 k_def)
    then show ?thesis using r(1,10) by simp
  qed
  then have "sim N st st2 rh_count"
    unfolding sim_def l_def
    by (intro exI [of _ "nat (ccode (wThreshold st) (wRemaining st) cnt)"]
        exI [of _ "nat (clen (wNbBits st) (wThreshold st) (wRemaining st) cnt)"] conjI w(3)) blast
  then show ?thesis using w(1,5) inv2 fin by blast
qed

lemma loop_sim:
  assumes "winv N st"
  shows "\<exists>stf. wh_loop N st = Some (Inr stf) \<and> winv N stf \<and> wRemaining stf = 0 \<and>
           (wRemaining st = 0 \<longrightarrow> stf = st) \<and> (0 < wRemaining st \<longrightarrow> wfin N stf) \<and>
           sim N st stf rh_loop"
  using assms
proof (induction "length N - wCharnum st" arbitrary: st rule: less_induct)
  case less
  have nonneg: "0 \<le> wRemaining st" using less.prems by (simp add: winv_def)
  show ?case
  proof (cases "wRemaining st = 0")
    case True
    have "wh_loop N st = Some (Inr st)" using True by (subst wh_loop.simps) simp
    moreover have "sim N st st rh_loop"
    proof (rule sim_cong [OF sim_refl])
      fix mem rs assume "sync N mem st rs"
      then have "rRemaining rs = 0" using True by (simp add: sync_def)
      then show "rh_loop mem rs = Some (Inr rs)" by (subst rh_loop.simps) simp
    qed
    ultimately show ?thesis using True less.prems by simp
  next
    case False
    then have pos: "0 < wRemaining st" using nonneg by simp
    define fz where "fz = (\<lambda>mem rs. Some (if rPrevious0 rs then rh_zero_run mem rs else Inr rs))"
    have "\<exists>st1. (if wPrevious0 st then wh_zero_run N st else Inr st) = Inr st1 \<and> winv N st1 \<and>
            wRemaining st1 = wRemaining st \<and> wCharnum st \<le> wCharnum st1 \<and> sim N st st1 fz"
    proof (cases "wPrevious0 st")
      case True
      from zphase [OF less.prems pos] obtain st1 where
        z: "wh_zero_run N st = Inr st1" "winv N st1" "wRemaining st1 = wRemaining st"
        "wCharnum st \<le> wCharnum st1" "sim N st st1 (\<lambda>mem rs. Some (rh_zero_run mem rs))"
        by blast
      have "sim N st st1 fz"
      proof (rule sim_cong [OF z(5)])
        fix mem rs assume "sync N mem st rs"
        then have "rPrevious0 rs" using True by (simp add: sync_def)
        then show "fz mem rs = Some (rh_zero_run mem rs)" by (simp add: fz_def)
      qed
      then show ?thesis using True z by simp
    next
      case False
      have "sim N st st fz"
      proof (rule sim_cong [OF sim_refl])
        fix mem rs assume "sync N mem st rs"
        then have "\<not> rPrevious0 rs" using False by (simp add: sync_def)
        then show "fz mem rs = Some (Inr rs)" by (simp add: fz_def)
      qed
      then show ?thesis using False less.prems by simp
    qed
    then obtain st1 where
      z: "(if wPrevious0 st then wh_zero_run N st else Inr st) = Inr st1" "winv N st1"
      "wRemaining st1 = wRemaining st" "wCharnum st \<le> wCharnum st1" "sim N st st1 fz"
      by blast
    have pos1: "0 < wRemaining st1" using pos z(3) by simp
    from cphase [OF z(2) pos1] obtain st2 where
      c: "wh_count N st1 = Some (Inr st2)" "winv N st2" "wCharnum st2 = wCharnum st1 + 1"
      "wRemaining st2 = 0 \<longrightarrow> wfin N st2" "sim N st1 st2 rh_count"
      by blast
    have "wCharnum st2 \<le> length N" using c(2) by (simp add: winv_def)
    then have m: "length N - wCharnum st2 < length N - wCharnum st" using c(3) z(4) by simp
    from less.hyps [OF m c(2)] obtain stf where
      f: "wh_loop N st2 = Some (Inr stf)" "winv N stf" "wRemaining stf = 0"
      "wRemaining st2 = 0 \<longrightarrow> stf = st2" "0 < wRemaining st2 \<longrightarrow> wfin N stf"
      "sim N st2 stf rh_loop"
      by blast
    have run: "wh_loop N st = Some (Inr stf)"
      using pos z(1) c(1) f(1) by (subst wh_loop.simps) simp
    have "0 \<le> wRemaining st2" using c(2) by (simp add: winv_def)
    then have fin: "wfin N stf" using c(4) f(4,5) by (cases "wRemaining st2 = 0") auto
    define fb where "fb = (\<lambda>mem rs. case (if rPrevious0 rs then rh_zero_run mem rs else Inr rs) of
        Inl e \<Rightarrow> Some (Inl e) | Inr rs1 \<Rightarrow> rh_count mem rs1)"
    have simb: "sim N st st2 fb"
      by (rule sim_trans [OF z(5) c(5)]) (auto simp add: fz_def fb_def split: if_splits)
    have "sim N st stf rh_loop"
    proof (rule sim_trans [OF simb f(6)])
      fix mem rs rs' assume a: "sync N mem st rs" "fb mem rs = Some (Inr rs')"
      have "0 < rRemaining rs" using a(1) pos by (simp add: sync_def)
      then show "rh_loop mem rs = rh_loop mem rs'"
        using a(2) by (subst rh_loop.simps) (auto simp add: fb_def split: sum.splits if_splits)
    qed
    then show ?thesis using run f(2,3) fin pos by simp
  qed
qed

subsection \<open>The round trip\<close>

lemma final_bytes:
  assumes "wf_w st"
  shows "bytes_val (wOut st @ take (nat ((wBitCount st + 7) div 8)) (store16 (wBitStream st))) = wv st"
    and "length (wOut st @ take (nat ((wBitCount st + 7) div 8)) (store16 (wBitStream st)))
         = length (wOut st) + nat ((wBitCount st + 7) div 8)"
proof -
  define w where "w = wBitStream st"
  define bc where "bc = wBitCount st"
  define j where "j = nat ((bc + 7) div 8)"
  have bc: "0 \<le> bc" "bc \<le> 16" "unat w < 2 ^ nat bc"
    using assms by (simp_all add: wf_w_def w_def bc_def)
  have j2: "j \<le> 2" using bc by (simp add: j_def)
  have "nat bc \<le> 8 * j" using bc by (simp add: j_def)
  then have "(2 :: nat) ^ nat bc \<le> 2 ^ (8 * j)" by (intro power_increasing) simp_all
  then have wj: "unat w < 2 ^ (8 * j)" using bc(3) by linarith
  have "bytes_val (take j (store16 w)) = unat w"
  proof -
    consider "j = 0" | "j = 1" | "j = 2" using j2 by linarith
    then show ?thesis
    proof cases
      case 1
      then show ?thesis using wj by simp
    next
      case 2
      have "unat (ucast w :: byte) = unat w mod 2 ^ 8"
        by (simp add: unsigned_ucast_eq take_bit_eq_mod)
      then show ?thesis using wj 2 by (simp add: store16_def)
    next
      case 3
      then show ?thesis using wj unat_store16 [of w] by simp
    qed
  qed
  then show "bytes_val (wOut st @ take (nat ((wBitCount st + 7) div 8)) (store16 (wBitStream st))) = wv st"
    by (simp add: bytes_val_append wv_def w_def bc_def j_def)
  show "length (wOut st @ take (nat ((wBitCount st + 7) div 8)) (store16 (wBitStream st)))
         = length (wOut st) + nat ((wBitCount st + 7) div 8)"
    using j2 by (simp add: j_def bc_def min_def)
qed

lemma sum_zero_tail:
  assumes "sum_list (map unat (drop c (N :: u32 list))) = 0" "c \<le> i" "i < length N"
  shows "N ! i = 0"
proof -
  have "drop c N ! (i - c) = N ! i" "i - c < length (drop c N)"
    using assms(2,3) by simp_all
  then have "N ! i \<in> set (drop c N)" by (metis nth_mem)
  then have "unat (N ! i) = 0" using assms(1) by (auto simp add: sum_list_eq_0_iff)
  then show ?thesis by (simp add: unat_eq_0)
qed

text \<open>
  Claim C3, as amended. Let the table log \<open>L\<close> be in \<open>[5, 12]\<close>, let the counts \<open>N\<close> sum to
  \<open>2^L\<close> and let \<open>k\<close> be the index of the last count that is not zero. The reader, on a buffer
  that starts with the bytes of \<^verbatim>\<open>FSE_writeHeader\<close> and holds at least 4 bytes more, returns
  the number of bytes that the writer returned, the table log \<open>L\<close>, \<open>k + 1\<close> symbols, which is
  the length of \<open>N\<close> exactly when the last count is not zero, and the counts \<open>N[0..k]\<close>.
\<close>

theorem FSE_header_roundtrip_amended:
  assumes L: "5 \<le> L" "L \<le> 12"
    and total: "sum_list (map unat N) = 2 ^ nat L"
    and k: "k < length N" "N ! k \<noteq> 0" "\<forall>i. k < i \<and> i < length N \<longrightarrow> N ! i = 0"
    and cap: "length N \<le> length counter"
    and pad: "4 \<le> length pad"
  shows "\<exists>hdr counter'.
           FSE_writeHeader N (int (length N)) L = Some (Inr (int (length hdr), hdr)) \<and>
           FSE_readHeader counter (hdr @ pad)
             = Some (Inr (int (length hdr), counter', int (k + 1), L)) \<and>
           length counter' = length counter \<and> take (k + 1) counter' = take (k + 1) N"
proof -
  define c0 :: u32 where "c0 = word_of_int (L - FSE_MIN_TABLELOG)"
  define st0 where "st0 = \<lparr>wOut = [], wBitStream = 2 + push_bit 2 c0, wBitCount = 2 + 4,
      wCharnum = 0, wPrevious0 = False, wRemaining = 2 ^ nat L, wThreshold = 2 ^ nat L,
      wNbBits = L + 1\<rparr>"
  have "0 \<le> L - 5" "L - 5 < 2 ^ 31" using L by simp_all
  from word_small(1) [OF this] have uc0: "unat c0 = nat (L - 5)"
    by (simp only: c0_def FSE_MIN_TABLELOG_def)
  have c0_lt: "unat c0 < 2 ^ 4" unfolding uc0 using L by simp
  have u2: "unat (2 :: u32) = 2" by simp
  have two: "unat (2 :: u32) < 2 ^ 2" unfolding u2 by simp
  have le: "(2 :: nat) + 4 \<le> 32" by simp
  note e = word_emit [OF two c0_lt le, unfolded u2 uc0]
  have bs0: "unat (wBitStream st0) = 2 + 4 * nat (L - 5)"
    using e(1) by (simp only: st0_def wh_state.simps) simp
  have wf0: "wf_w st0" using e(2) bs0 by (simp add: wf_w_def st0_def)
  have v0: "wv st0 = 2 + 4 * nat (L - 5)" "wB st0 = 6" using bs0 by (simp_all add: wv_def wB_def st0_def)
  have h0: "hinv st0" using L by (simp add: hinv_def st0_def)
  have inv0: "winv N st0"
    unfolding winv_def using wf0 h0 total by (simp add: st0_def)
  have pos0: "0 < wRemaining st0" by (simp add: st0_def)
  from loop_sim [OF inv0] pos0 obtain stf where
    f: "wh_loop N st0 = Some (Inr stf)" "winv N stf" "wRemaining stf = 0" "wfin N stf"
    "sim N st0 stf rh_loop"
    by blast
  have wff: "wf_w stf" and cl: "wCharnum stf \<le> length N"
    and z: "sum_list (map unat (drop (wCharnum stf) N)) = 0"
    using f(2,3) by (simp_all add: winv_def)
  have fin: "0 < wCharnum stf" "N ! (wCharnum stf - 1) \<noteq> 0" "wNbBits stf \<le> 12"
    using f(4) by (simp_all add: wfin_def)
  have ck: "wCharnum stf = k + 1"
  proof -
    have "k < wCharnum stf"
    proof (rule ccontr)
      assume "\<not> k < wCharnum stf"
      then have "N ! k = 0" using sum_zero_tail [OF z _ k(1)] by simp
      then show False using k(2) by simp
    qed
    moreover have "wCharnum stf - 1 \<le> k"
    proof (rule ccontr)
      assume "\<not> wCharnum stf - 1 \<le> k"
      then have "N ! (wCharnum stf - 1) = 0" using k(3) cl fin(1) by simp
      then show False using fin(2) by simp
    qed
    ultimately show ?thesis by simp
  qed
  define hdr where "hdr = wOut stf @ take (nat ((wBitCount stf + 7) div 8)) (store16 (wBitStream stf))"
  note fb = final_bytes [OF wff, folded hdr_def]
  have wrun: "FSE_writeHeader N (int (length N)) L = Some (Inr (int (length hdr), hdr))"
    unfolding FSE_writeHeader_def Let_def c0_def [symmetric] st0_def [symmetric]
    using L f(1,3) cl
    by (simp add: FSE_MAX_TABLELOG_def FSE_MIN_TABLELOG_def FSE_MEMORY_USAGE_def hdr_def)
  define mem where "mem = hdr @ pad"
  define M where "M = bytes_val mem"
  have bcf: "0 \<le> wBitCount stf" "wBitCount stf \<le> 16" using wff by (simp_all add: wf_w_def)
  have Bf: "wB stf \<le> 8 * length hdr" using bcf by (simp add: fb(2) wB_def)
  have "M = wv stf + 2 ^ (8 * length hdr) * bytes_val pad"
    by (simp add: M_def mem_def bytes_val_append fb(1))
  also have "8 * length hdr = wB stf + (8 * length hdr - wB stf)" using Bf by simp
  finally have "M = wv stf + 2 ^ wB stf * (2 ^ (8 * length hdr - wB stf) * bytes_val pad)"
    by (simp only: power_add mult.assoc)
  then have tbM: "take_bit (wB stf) M = wv stf"
    using wv_less [OF wff] by (simp add: take_bit_eq_mod)
  from f(5) obtain c l where s: "wstep st0 stf c l"
    "\<And>mem rs. sync N mem st0 rs \<Longrightarrow> take_bit l (strm mem (wB st0)) = c \<Longrightarrow>
        wB stf div 8 + 4 \<le> length mem \<Longrightarrow> length N \<le> length (rCounter rs) \<Longrightarrow>
        \<exists>rs'. rh_loop mem rs = Some (Inr rs') \<and> sync N mem stf rs' \<and>
           length (rCounter rs') = length (rCounter rs)"
    unfolding sim_def by blast
  have ws: "wv stf = wv st0 + 2 ^ 6 * c" "wB stf = 6 + l"
    using s(1) by (simp_all add: wstep_def v0)
  have "take_bit (6 + l) M = wv st0 + 2 ^ 6 * c" using tbM ws by simp
  moreover have "wv st0 < 2 ^ 6" using wv_less [OF wf0] by (simp add: v0)
  ultimately have sp: "take_bit 6 M = wv st0" "take_bit l (drop_bit 6 M) = c"
    by (rule split_code)+
  have lenm: "0 + 4 \<le> length mem" using pad by (simp add: mem_def)
  from load32_val [OF lenm] obtain w where w: "load32 mem 0 = Inr w" "unat w = take_bit 32 M"
    by (auto simp add: M_def)
  have "take_bit 4 (drop_bit 2 (unat w)) = take_bit 4 (drop_bit 2 M)"
    unfolding w(2) by (rule take_drop_take) simp
  also have "\<dots> = drop_bit 2 (take_bit 6 M)" by (simp add: take_bit_drop_bit)
  also have "\<dots> = nat (L - 5)" by (simp add: sp(1) v0 drop_bit_eq_div)
  finally have "unat (drop_bit 2 w AND mask 4) = nat (L - 5)"
    by (simp only: and_mask_unat unat_drop_bit_eq)
  moreover have "(mask 4 :: u32) = 0xF" by (simp add: mask_eq_exp_minus_1)
  ultimately have "unat (drop_bit 2 w AND 0xF) = nat (L - 5)" by simp
  then have "int (unat (drop_bit 2 w AND 0xF)) = L - 5" using L by simp
  then have "uint (drop_bit 2 w AND 0xF) = L - 5" by (simp only: uint_nat)
  then have nb: "uint (drop_bit 2 w AND 0xF) + FSE_MIN_TABLELOG = L"
    by (simp add: FSE_MIN_TABLELOG_def)
  define rs0 where "rs0 = \<lparr>rIp = 0, rBitStream = drop_bit 4 (drop_bit 2 w), rBitCount = 6,
      rCharnum = 0, rPrevious0 = False, rRemaining = 2 ^ nat L, rThreshold = 2 ^ nat L,
      rNbBits = L + 1, rCounter = counter\<rparr>"
  have "unat (drop_bit 4 (drop_bit 2 w)) = drop_bit 6 (take_bit 32 (strm mem 0))"
    by (simp add: unat_drop_bit_eq w(2) strm_def M_def drop_bit_drop_bit)
  then have rs: "rsync mem rs0" using lenm by (simp add: rsync_def rs0_def)
  have sy0: "sync N mem st0 rs0"
    using rs by (simp add: sync_def rs0_def st0_def rpos_def wB_def)
  have code: "take_bit l (strm mem (wB st0)) = c" using sp(2) by (simp add: v0 strm_def M_def)
  have lenf: "wB stf div 8 + 4 \<le> length mem"
    using Bf pad by (simp add: mem_def)
  have capr: "length N \<le> length (rCounter rs0)" using cap by (simp add: rs0_def)
  from s(2) [OF sy0 code lenf capr] obtain rsf where
    r: "rh_loop mem rs0 = Some (Inr rsf)" "sync N mem stf rsf"
    "length (rCounter rsf) = length counter"
    by (auto simp add: rs0_def)
  have sf: "rpos rsf = wB stf" "rBitCount rsf \<le> 7" "rCharnum rsf = k + 1" "rRemaining rsf = 0"
    "rNbBits rsf \<le> 12" "\<forall>i<k + 1. rCounter rsf ! i = N ! i" "0 \<le> rBitCount rsf"
    using r(2) f(3) fin(3) ck by (simp_all add: sync_def rsync_def)
  have size: "int (rIp rsf) + (if rBitCount rsf > 0 then 1 else 0) = int (length hdr)"
    using sf(1,2,7) bcf by (simp add: rpos_def wB_def fb(2)) linarith
  have rrun: "FSE_readHeader counter mem
              = Some (Inr (int (length hdr), rCounter rsf, int (k + 1), L))"
    unfolding FSE_readHeader_def w(1) sum.case Let_def nb rs0_def [symmetric]
    using r(1) sf(3,4,5) size
    by (simp add: FSE_MAX_TABLELOG_def FSE_MEMORY_USAGE_def)
  have "take (k + 1) (rCounter rsf) = take (k + 1) N"
    using sf(6) k(1) cap r(3) by (intro nth_take_lemma) simp_all
  then show ?thesis using wrun rrun r(3) unfolding mem_def by blast
qed

text \<open>The amended claim C3 at the table log 5 with the counts \<open>[16, 16]\<close>.\<close>

theorem FSE_header_roundtrip_amended_witness:
  "(5 :: int) \<le> 5 \<and> (5 :: int) \<le> 12 \<and> sum_list (map unat [16, 16 :: u32]) = 2 ^ nat 5 \<and>
   (1 :: nat) < length [16, 16 :: u32] \<and> [16, 16 :: u32] ! 1 \<noteq> 0 \<and>
   length [16, 16 :: u32] \<le> length [0, 0 :: u32] \<and> 4 \<le> length [0, 0, 0, 0 :: byte] \<and>
   (\<exists>hdr counter'.
      FSE_writeHeader [16, 16] (int (length [16, 16 :: u32])) 5 = Some (Inr (int (length hdr), hdr)) \<and>
      FSE_readHeader [0, 0] (hdr @ [0, 0, 0, 0]) = Some (Inr (int (length hdr), counter', int (1 + 1), 5)) \<and>
      length counter' = length [0, 0 :: u32] \<and> take (1 + 1) counter' = take (1 + 1) [16, 16])"
  using FSE_header_roundtrip_amended [of 5 "[16, 16]" 1 "[0, 0]" "[0, 0, 0, 0]"] by simp

text \<open>
  Claim C3 as stated fails: the counts \<open>[32, 0]\<close> at the table log 5 are written as two bytes,
  and the reader, given four readable bytes after them, returns 1 symbol and not 2: the
  header does not hold the number of symbols, the reader stops at the count that exhausts
  the table. And on the two bytes written for the counts \<open>[16, 16]\<close> alone, the first read
  of the reader, of four bytes, leaves the buffer.
\<close>

theorem FSE_header_roundtrip_counterexample:
  "FSE_writeHeader [32, 0] 2 5 = Some (Inr (2, [0xC2, 0x0F])) \<and>
   FSE_readHeader [0, 0] ([0xC2, 0x0F] @ [0, 0, 0, 0]) = Some (Inr (2, [32, 0], 1, 5)) \<and>
   sum_list (map unat [32, 0 :: u32]) = 2 ^ 5 \<and> (1 :: int) \<noteq> int (length [32, 0 :: u32]) \<and>
   FSE_writeHeader [16, 16] 2 5 = Some (Inr (2, [2, 252])) \<and>
   FSE_readHeader [0, 0] [2, 252] = Some (Inl OutOfBounds)"
  by (simp add: FSE_writeHeader_def wh_loop.simps wh_count_def wh_flush_def header_halve.simps
      store16_def Let_def FSE_MAX_TABLELOG_def FSE_MIN_TABLELOG_def FSE_MEMORY_USAGE_def
      FSE_readHeader_def rh_loop.simps rh_count_def rh_reload_def load32_def
      cong: let_weak_cong)


section \<open>Properties of symbol spreading\<close>

lemma and_tableMask: "0 \<le> x \<Longrightarrow> x AND (2 ^ n - 1) = x mod (2 ^ n :: int)"
  by (simp flip: mask_eq_exp_minus_1 take_bit_eq_mask add: take_bit_eq_mod)

lemma write_seq_length [simp]: "length (write_seq T step p vs S) = length S"
  by (induction vs arbitrary: p S) simp_all

lemma write_seq_append:
  "write_seq T step p (xs @ ys) S =
   write_seq T step ((p + int (length xs) * step) mod T) ys (write_seq T step p xs S)"
  if "0 \<le> p" "p < T"
  using that
proof (induction xs arbitrary: p S)
  case Nil
  then show ?case by simp
next
  case (Cons x xs)
  have "0 \<le> (p + step) mod T" "(p + step) mod T < T" using Cons.prems by simp_all
  from Cons.IH [OF this] show ?case
    by (simp add: mod_simps algebra_simps)
qed

lemma spread_symbol_eq:
  assumes "0 \<le> position" "position < 2 ^ L" "2 ^ L \<le> length S" "0 \<le> step"
  shows "spread_symbol step (2 ^ L - 1) b is S position =
         Inr (write_seq (2 ^ L) step position (replicate (length is) b) S,
              (position + int (length is) * step) mod 2 ^ L)"
  using assms
proof (induction "is" arbitrary: S position)
  case Nil
  then show ?case by simp
next
  case (Cons i "is")
  have a: "(position + step) AND (2 ^ L - 1) = (position + step) mod 2 ^ L"
    using Cons.prems by (intro and_tableMask) simp
  have b: "0 \<le> (position + step) mod 2 ^ L" "(position + step) mod 2 ^ L < 2 ^ L" by simp_all
  have c: "nat position < length S" using Cons.prems
    by (metis nat_less_iff of_nat_less_imp_less of_nat_numeral of_nat_power order_less_le_trans)
  show ?case using Cons.prems c
    by (simp add: a Cons.IH [OF b] mod_simps algebra_simps)
qed


lemma spread_vals_Nil [simp]: "spread_vals N [] = []"
  by (simp add: spread_vals_def)

lemma spread_vals_Cons:
  "spread_vals N (s # ss) = replicate (unat (N ! s)) (word_of_int (int s)) @ spread_vals N ss"
  by (simp add: spread_vals_def)

lemma spread_loop_eq:
  assumes "0 \<le> position" "position < 2 ^ L" "2 ^ L \<le> length S" "0 \<le> step"
    and "\<forall>s \<in> set ss. s < length N"
  shows "spread_loop step (2 ^ L - 1) N ss S position =
         Inr (write_seq (2 ^ L) step position (spread_vals N ss) S,
              (position + int (length (spread_vals N ss)) * step) mod 2 ^ L)"
  using assms
proof (induction ss arbitrary: S position)
  case Nil
  then show ?case by simp
next
  case (Cons s ss)
  let ?n = "unat (N ! s)"
  let ?p = "(position + int ?n * step) mod 2 ^ L"
  let ?S = "write_seq (2 ^ L) step position (replicate ?n (word_of_int (int s))) S"
  have sym: "spread_symbol step (2 ^ L - 1) (word_of_int (int s)) [0 ..< ?n] S position = Inr (?S, ?p)"
    using spread_symbol_eq [OF Cons.prems(1-4), of "word_of_int (int s)" "[0 ..< ?n]"] by simp
  have p: "0 \<le> ?p" "?p < 2 ^ L" by simp_all
  have S: "2 ^ L \<le> length ?S" using Cons.prems(3) by simp
  have ss: "\<forall>s \<in> set ss. s < length N" using Cons.prems(5) by simp
  have s: "s < length N" using Cons.prems(5) by simp
  have "spread_loop step (2 ^ L - 1) N (s # ss) S position = spread_loop step (2 ^ L - 1) N ss ?S ?p"
    using s sym by simp
  also have "\<dots> = Inr (write_seq (2 ^ L) step ?p (spread_vals N ss) ?S,
                       (?p + int (length (spread_vals N ss)) * step) mod 2 ^ L)"
    by (rule Cons.IH [OF p S Cons.prems(4) ss])
  also have "write_seq (2 ^ L) step ?p (spread_vals N ss) ?S =
             write_seq (2 ^ L) step position (spread_vals N (s # ss)) S"
    using Cons.prems(1,2) by (simp add: spread_vals_Cons write_seq_append)
  also have "(?p + int (length (spread_vals N ss)) * step) mod 2 ^ L =
             (position + int (length (spread_vals N (s # ss))) * step) mod 2 ^ L"
    by (simp add: spread_vals_Cons mod_simps algebra_simps)
  finally show ?case .
qed

lemma odd_coprime_power2: "odd (a :: int) \<Longrightarrow> coprime (2 ^ L) a"
  by (simp add: coprime_commute)

lemma step_inj:
  assumes "odd (step :: int)" "j < 2 ^ L" "k < 2 ^ L"
    and "(p + int j * step) mod 2 ^ L = (p + int k * step) mod 2 ^ L"
  shows "j = (k :: nat)"
proof -
  define T :: int where "T = 2 ^ L"
  have "T dvd (p + int j * step) - (p + int k * step)"
    using assms(4) by (simp add: mod_eq_dvd_iff T_def)
  then have "T dvd (int j - int k) * step" by (simp add: algebra_simps)
  then have d: "T dvd int j - int k"
    using odd_coprime_power2 [OF assms(1), of L] by (simp add: coprime_dvd_mult_left_iff T_def)
  have "int j < T" "int k < T" using assms(2,3) by (simp_all add: T_def)
  then have lt: "\<bar>int j - int k\<bar> < T" by linarith
  have "int j - int k = 0"
  proof (rule ccontr)
    assume "int j - int k \<noteq> 0"
    from dvd_imp_le_int [OF this d] show False using lt by linarith
  qed
  then show ?thesis by simp
qed


lemma pos_Suc: "((p + step) mod T + int k * step) mod T = (p + int (Suc k) * step) mod (T :: int)"
  by (simp add: mod_simps algebra_simps)

lemma write_seq_other:
  assumes "\<forall>k<length vs. q \<noteq> nat ((p + int k * step) mod T)" "0 \<le> p" "p < T"
  shows "write_seq T step p vs S ! q = S ! q"
  using assms
proof (induction vs arbitrary: p S)
  case Nil
  then show ?case by simp
next
  case (Cons v vs)
  have "\<forall>k<length vs. q \<noteq> nat (((p + step) mod T + int k * step) mod T)"
  proof (intro allI impI)
    fix k assume "k < length vs"
    then have "Suc k < length (v # vs)" by simp
    with Cons.prems(1) have "q \<noteq> nat ((p + int (Suc k) * step) mod T)" by blast
    then show "q \<noteq> nat (((p + step) mod T + int k * step) mod T)" unfolding pos_Suc .
  qed
  moreover have "0 \<le> (p + step) mod T" "(p + step) mod T < T" using Cons.prems(2,3) by simp_all
  ultimately have "write_seq T step ((p + step) mod T) vs (S[nat p := Some v]) ! q = S[nat p := Some v] ! q"
    by (rule Cons.IH)
  moreover have "q \<noteq> nat p" using Cons.prems by fastforce
  ultimately show ?case by simp
qed

lemma write_seq_nth:
  assumes "k < length vs" "length vs \<le> 2 ^ L" "odd step" "0 \<le> p" "p < 2 ^ L" "2 ^ L \<le> length S"
  shows "write_seq (2 ^ L) step p vs S ! nat ((p + int k * step) mod 2 ^ L) = Some (vs ! k)"
  using assms
proof (induction vs arbitrary: p S k)
  case Nil
  then show ?case by simp
next
  case (Cons v vs)
  let ?p = "(p + step) mod 2 ^ L"
  have p': "0 \<le> ?p" "?p < 2 ^ L" by simp_all
  have len: "length vs \<le> 2 ^ L" using Cons.prems(2) by simp
  have S': "2 ^ L \<le> length (S[nat p := Some v])" using Cons.prems(6) by simp
  show ?case
  proof (cases k)
    case 0
    have "\<forall>k'<length vs. nat p \<noteq> nat ((?p + int k' * step) mod 2 ^ L)"
    proof (intro allI impI)
      fix k' assume k': "k' < length vs"
      then have "Suc k' < 2 ^ L" using Cons.prems(2) by simp
      moreover have "(0 :: nat) < 2 ^ L" by simp
      ultimately have "(p + int 0 * step) mod 2 ^ L \<noteq> (p + int (Suc k') * step) mod 2 ^ L"
        using step_inj [OF Cons.prems(3), of 0 L "Suc k'" p] by auto
      then have "p \<noteq> (?p + int k' * step) mod 2 ^ L"
        using Cons.prems(4,5) by (simp only: pos_Suc) simp
      moreover have "0 \<le> (?p + int k' * step) mod 2 ^ L" by simp
      ultimately show "nat p \<noteq> nat ((?p + int k' * step) mod 2 ^ L)"
        using Cons.prems(4) by (metis int_nat_eq)
    qed
    from write_seq_other [OF this p']
    have "write_seq (2 ^ L) step ?p vs (S[nat p := Some v]) ! nat p = S[nat p := Some v] ! nat p" .
    moreover have "nat p < length S" using Cons.prems(4,5,6)
      by (metis nat_less_iff of_nat_less_imp_less of_nat_numeral of_nat_power order_less_le_trans)
    ultimately show ?thesis using 0 Cons.prems(4,5) by simp
  next
    case (Suc k')
    then have "k' < length vs" using Cons.prems(1) by simp
    from Cons.IH [OF this len Cons.prems(3) p' S']
    show ?thesis using Suc by (simp add: pos_Suc del: of_nat_Suc)
  qed
qed


lemma count_list_conv_card: "count_list xs x = card {i. i < length xs \<and> x = xs ! i}"
  by (simp add: count_list_eq_length_filter length_filter_conv_card)

lemma write_seq_count:
  fixes vs :: "byte list"
  assumes len: "length vs = 2 ^ L" and odd: "odd step" and S: "2 ^ L \<le> length S"
  shows "count_list (take (2 ^ L) (write_seq (2 ^ L) step 0 vs S)) (Some b) = count_list vs b"
proof -
  define T :: nat where "T = 2 ^ L"
  define f where "f k = nat ((int k * step) mod 2 ^ L)" for k
  define S' where "S' = write_seq (2 ^ L) step 0 vs S"
  have T_int: "int T = 2 ^ L" by (simp add: T_def)
  have inj: "inj_on f {0 ..< T}"
  proof (rule inj_onI)
    fix j k assume jk: "j \<in> {0 ..< T}" "k \<in> {0 ..< T}" and e: "f j = f k"
    have "(0 + int j * step) mod 2 ^ L = (0 + int k * step) mod 2 ^ L"
      using e unfolding f_def by (metis add_0 int_nat_eq pos_mod_sign zero_less_numeral zero_less_power)
    from step_inj [OF odd _ _ this] jk show "j = k" by (simp add: T_def)
  qed
  have "f ` {0 ..< T} \<subseteq> {0 ..< T}"
  proof
    fix q assume "q \<in> f ` {0 ..< T}"
    then obtain k where q: "q = f k" by blast
    have "(int k * step) mod 2 ^ L < int T" unfolding T_int by simp
    then show "q \<in> {0 ..< T}" unfolding q f_def by (simp add: nat_less_iff)
  qed
  moreover have "card (f ` {0 ..< T}) = card {0 ..< T}" using inj by (rule card_image)
  ultimately have img: "f ` {0 ..< T} = {0 ..< T}" by (simp add: card_subset_eq)
  have nth: "S' ! f k = Some (vs ! k)" if "k \<in> {0 ..< T}" for k
    using write_seq_nth [of k vs L step 0 S] that len odd S by (simp add: S'_def f_def T_def)
  have TS: "T \<le> length S'" using S by (simp add: S'_def T_def)
  define A where "A = {k. k < T \<and> b = vs ! k}"
  define B where "B = {i. i < T \<and> Some b = S' ! i}"
  have "f ` A = B"
  proof (intro set_eqI iffI)
    fix i assume "i \<in> f ` A"
    then obtain k where k: "k < T" "b = vs ! k" "i = f k" by (auto simp add: A_def)
    then have "f k \<in> {0 ..< T}" using img by auto
    then show "i \<in> B" using k nth [of k] by (simp add: B_def)
  next
    fix i assume "i \<in> B"
    then have i: "i < T" "Some b = S' ! i" by (simp_all add: B_def)
    then have "i \<in> f ` {0 ..< T}" using img by simp
    then obtain k where k: "k \<in> {0 ..< T}" "i = f k" by blast
    then have "b = vs ! k" using nth [OF k(1)] i(2) by simp
    then show "i \<in> f ` A" using k by (simp add: A_def)
  qed
  moreover have "inj_on f A" by (rule inj_on_subset [OF inj]) (auto simp add: A_def)
  ultimately have "card B = card A" using card_image by blast
  moreover have "count_list (take T S') (Some b) = card B"
    using TS by (simp add: count_list_conv_card B_def min_def cong: conj_cong)
  moreover have "count_list vs b = card A"
    using len by (simp add: count_list_conv_card A_def T_def)
  ultimately show ?thesis by (simp add: S'_def T_def)
qed

lemma count_list_replicate: "count_list (replicate n x) y = (if x = y then n else 0)"
  by (induction n) auto

lemma spread_vals_append: "spread_vals N (xs @ ys) = spread_vals N xs @ spread_vals N ys"
  by (simp add: spread_vals_def)

lemma byte_of_nat_inj: "s < 256 \<Longrightarrow> n < 256 \<Longrightarrow> (word_of_int (int n) :: byte) = word_of_int (int s) \<longleftrightarrow> n = s"
  by (simp add: word_of_nat_eq_iff take_bit_nat_eq_self)

lemma spread_vals_count:
  "n \<le> 256 \<Longrightarrow> s < 256 \<Longrightarrow>
   count_list (spread_vals N [0 ..< n]) (word_of_int (int s)) = (if s < n then unat (N ! s) else 0)"
proof (induction n)
  case 0
  then show ?case by simp
next
  case (Suc n)
  then show ?case
    using byte_of_nat_inj [of s n]
    by (auto simp add: spread_vals_append spread_vals_Cons count_list_replicate simp del: of_nat_Suc)
qed

lemma spread_vals_length:
  "n \<le> length N \<Longrightarrow> length (spread_vals N [0 ..< n]) = sum_list (map unat (take n N))"
  by (induction n) (simp_all add: spread_vals_append spread_vals_Cons take_Suc_conv_app_nth)

lemma FSE_TABLESTEP_odd:
  "L = 0 \<or> L = 2 \<or> 4 \<le> L \<Longrightarrow> odd (FSE_TABLESTEP (2 ^ L)) \<and> 0 \<le> FSE_TABLESTEP (2 ^ L)"
  by (auto simp add: FSE_TABLESTEP_def drop_bit_exp_eq)


text \<open>
  Claim C4. Let the table log be in \<open>[5, 12]\<close> and let \<open>N\<close> hold \<open>nbSymbols\<close> weights, at most
  256 since the symbols are bytes, of sum \<open>T = 2^tableLog\<close>. On a buffer of at least \<open>T\<close> cells
  the spreader succeeds, its cursor, advanced by \<open>(T>>1) + (T>>3) + 3\<close> modulo \<open>T\<close> at each
  write, is back at 0 after the \<open>T\<close> writes, and every symbol \<open>s\<close> occurs exactly \<open>N[s]\<close> times
  in the first \<open>T\<close> cells.
\<close>

theorem FSE_spreadSymbols8_permutation:
  assumes L: "5 \<le> tableLog" "tableLog \<le> 12"
    and n: "0 \<le> nbSymbols" "nbSymbols \<le> 256" "nat nbSymbols \<le> length N"
    and total: "sum_list (map unat (take (nat nbSymbols) N)) = 2 ^ nat tableLog"
    and buf: "2 ^ nat tableLog \<le> length S0"
    and s: "s < nat nbSymbols"
  shows "\<exists>S. FSE_spreadSymbols8 S0 N nbSymbols tableLog = Inr S \<and>
             spread_loop (FSE_TABLESTEP (2 ^ nat tableLog)) (2 ^ nat tableLog - 1) N
               [0 ..< nat nbSymbols] S0 0 = Inr (S, 0) \<and>
             length S = length S0 \<and>
             count_list (take (2 ^ nat tableLog) S) (Some (word_of_int (int s))) = unat (N ! s)"
proof -
  define T :: nat where "T = nat tableLog"
  define step where "step = FSE_TABLESTEP (2 ^ T)"
  define vs where "vs = spread_vals N [0 ..< nat nbSymbols]"
  define S where "S = write_seq (2 ^ T) step 0 vs S0"
  have "T = 0 \<or> T = 2 \<or> 4 \<le> T" using L(1) by (auto simp add: T_def)
  from FSE_TABLESTEP_odd [OF this] have step: "odd step" "0 \<le> step" by (simp_all add: step_def)
  have len: "length vs = 2 ^ T"
    using spread_vals_length [OF n(3)] total by (simp add: vs_def T_def)
  have "\<forall>s \<in> set [0 ..< nat nbSymbols]. s < length N" using n(3) by simp
  from spread_loop_eq [OF _ _ _ step(2) this, of 0 T S0]
  have "spread_loop step (2 ^ T - 1) N [0 ..< nat nbSymbols] S0 0 =
        Inr (S, (int (length vs) * step) mod 2 ^ T)"
    using buf by (simp add: S_def vs_def T_def)
  then have loop: "spread_loop step (2 ^ T - 1) N [0 ..< nat nbSymbols] S0 0 = Inr (S, 0)"
    by (simp add: len)
  have run: "FSE_spreadSymbols8 S0 N nbSymbols tableLog = Inr S"
    using loop by (simp add: FSE_spreadSymbols8_def Let_def step_def T_def)
  have "count_list (take (2 ^ T) S) (Some (word_of_int (int s))) = count_list vs (word_of_int (int s))"
    unfolding S_def using buf by (intro write_seq_count [OF len step(1)]) (simp add: T_def)
  also have "\<dots> = unat (N ! s)"
    using spread_vals_count [of "nat nbSymbols" s N] n s by (simp add: vs_def)
  finally have cnt: "count_list (take (2 ^ T) S) (Some (word_of_int (int s))) = unat (N ! s)" .
  have "length S = length S0" by (simp add: S_def)
  with run loop cnt show ?thesis by (simp add: step_def T_def)
qed

text \<open>Claim C4 at the table log 5 with the weights \<open>[16, 16]\<close>, for the symbol 1.\<close>

theorem FSE_spreadSymbols8_permutation_witness:
  "(5 :: int) \<le> 5 \<and> (5 :: int) \<le> 12 \<and>
   (0 :: int) \<le> 2 \<and> (2 :: int) \<le> 256 \<and> nat 2 \<le> length [16, 16 :: u32] \<and>
   sum_list (map unat (take (nat 2) [16, 16 :: u32])) = 2 ^ nat 5 \<and>
   2 ^ nat 5 \<le> length (replicate 32 (None :: byte option)) \<and> (1 :: nat) < nat 2 \<and>
   (\<exists>S. FSE_spreadSymbols8 (replicate 32 None) [16, 16] 2 5 = Inr S \<and>
        spread_loop (FSE_TABLESTEP (2 ^ nat 5)) (2 ^ nat 5 - 1) [16, 16] [0 ..< nat 2]
          (replicate 32 None) 0 = Inr (S, 0) \<and>
        length S = length (replicate 32 (None :: byte option)) \<and>
        count_list (take (2 ^ nat 5) S) (Some (word_of_int (int 1))) = unat ([16, 16 :: u32] ! 1))"
  using FSE_spreadSymbols8_permutation [of 5 2 "[16, 16]" "replicate 32 None" 1] by simp
section \<open>Properties of block compression and decompression\<close>

text \<open>
  Claim C10. On an empty source, \<^verbatim>\<open>FSE_compress2\<close> returns 1 and writes the single byte
  \<open>0x00\<close>, an empty raw frame, for every \<open>nbSymbols\<close> and \<open>tableLog\<close>: it never reaches the
  test of \<^verbatim>\<open>FSE_count\<close> that rejects an empty input.
\<close>

theorem FSE_compress2_empty_source:
  "FSE_compress2 [] nbSymbols tableLog = Some (Inr (1, [0x00]))"
  by (simp add: FSE_compress2_def FSE_noCompression_def)

text \<open>
  Claim C9. When the two top bits of the stream descriptor hold 2 or 3 (three or four
  states), \<^verbatim>\<open>FSE_decompress_usingDTable_generic\<close> returns the error code, whatever the
  table, the sizes and the mode; an error carries no output.
\<close>

theorem FSE_decompress_usingDTable_three_or_four_states:
  assumes "load32i mem compressed = Inr descriptor"
    and "drop_bit 30 descriptor = 2 \<or> drop_bit 30 descriptor = 3"
  shows "FSE_decompress_usingDTable_generic originalSize mem compressed maxCompressedSize
           decodeTable tableLog safe = Inl ErrorCode"
  using assms
  by (auto simp: FSE_decompress_usingDTable_generic_def FSE_getNbStates_def ebind_def)

text \<open>Claim C9 at the descriptor \<open>0x80000000\<close>.\<close>

theorem FSE_decompress_usingDTable_three_or_four_states_witness:
  "load32i [0, 0, 0, 0x80] 0 = Inr 0x80000000 \<and>
   (drop_bit 30 (0x80000000 :: u32) = 2 \<or> drop_bit 30 (0x80000000 :: u32) = 3) \<and>
   FSE_decompress_usingDTable_generic 10 [0, 0, 0, 0x80] 0 4 [] 5 True = Inl ErrorCode"
proof -
  have a: "load32i [0, 0, 0, 0x80] 0 = Inr 0x80000000"
    by (simp add: load32i_def load32_def)
  have b: "drop_bit 30 (0x80000000 :: u32) = 2 \<or> drop_bit 30 (0x80000000 :: u32) = 3"
    by simp
  from FSE_decompress_usingDTable_three_or_four_states [OF a b] a b show ?thesis by simp
qed

lemma occ_code: "occ xs i = word_of_int (int (count_list xs (word_of_int (int i))))"
  by (simp add: occ_def)

lemma count_trim_eq:
  "m \<le> n \<Longrightarrow> 0 < m \<Longrightarrow> cnt ! (m - 1) \<noteq> 0 \<Longrightarrow> (\<forall>j. m \<le> j \<and> j < n \<longrightarrow> cnt ! j = 0) \<Longrightarrow>
   count_trim cnt n = Inr m"
proof (induction n)
  case (Suc n)
  show ?case
  proof (cases "m = Suc n")
    case True
    with Suc.prems show ?thesis by simp
  next
    case False
    with Suc.prems have "m \<le> n" "cnt ! n = 0" by auto
    with Suc show ?thesis by simp
  qed
qed simp

text \<open>A source whose bytes are all below \<open>m\<close> and whose largest byte is \<open>m - 1\<close>.\<close>

lemma FSE_count_eq:
  assumes src: "src \<noteq> []" and m: "0 < m" "m \<le> 256"
    and top: "word_of_nat (m - 1) \<in> set src" and below: "\<forall>b\<in>set src. unat b < m"
    and len: "length src < 2 ^ 32"
  shows "FSE_count src 256 = Inr (int m, map (occ src) [0 ..< 256])"
proof -
  have "count_list src (word_of_nat (m - 1)) \<noteq> 0"
    using top by (simp add: count_list_0_iff)
  then have "unat (occ src (m - 1)) \<noteq> 0"
    using unat_occ [OF len, of "m - 1"] by simp
  then have nz: "map (occ src) [0 ..< 256] ! (m - 1) \<noteq> 0"
    using m by auto
  have z: "\<forall>j. m \<le> j \<and> j < 256 \<longrightarrow> map (occ src) [0 ..< 256] ! j = 0"
  proof (intro allI impI)
    fix j :: nat assume j: "m \<le> j \<and> j < 256"
    have "(word_of_nat j :: byte) \<notin> set src"
    proof
      assume "(word_of_nat j :: byte) \<in> set src"
      with below have "unat (word_of_nat j :: byte) < m" by blast
      moreover have "unat (word_of_nat j :: byte) = j" using j by (simp add: unat_of_nat)
      ultimately show False using j by simp
    qed
    then show "map (occ src) [0 ..< 256] ! j = 0"
      using j by (simp add: occ_def)
  qed
  have "count_trim (map (occ src) [0 ..< 256]) 256 = Inr m"
    using m by (intro count_trim_eq [OF _ _ nz z]) simp_all
  then show ?thesis
    using FSE_count_run [of src 256] src by (simp add: Let_def)
qed

lemma minBase_loop_Some:
  assumes "normalize_minBase_loop mb a n tlog = Some z"
  shows "\<not> (drop_bit tlog (a * n) = a \<and> a \<noteq> 0)"
proof -
  define P where "P = (\<lambda>(mb :: u32) (a :: u32) (n :: u32) (tlog :: nat) (z :: u32).
    \<not> (drop_bit tlog (a * n) = a \<and> a \<noteq> 0))"
  have "P mb a n tlog z"
  proof (rule normalize_minBase_loop.raw_induct [of P, OF _ assms])
    fix f :: "u32 \<Rightarrow> u32 \<Rightarrow> u32 \<Rightarrow> nat \<Rightarrow> u32 option" and mb a n :: u32 and tlog :: nat and z :: u32
    assume IH: "\<And>mb a n tlog z. f mb a n tlog = Some z \<Longrightarrow> P mb a n tlog z"
      and eq: "(if drop_bit tlog (a * n) \<noteq> 0 then f (mb + a) (drop_bit tlog (a * n)) n tlog
                else Some (mb + a)) = Some z"
    show "P mb a n tlog z"
      unfolding P_def
    proof
      assume h: "drop_bit tlog (a * n) = a \<and> a \<noteq> 0"
      with eq have "f (mb + a) a n tlog = Some z" by simp
      from IH [OF this] h show False by (simp add: P_def)
    qed
  qed
  then show ?thesis by (simp add: P_def)
qed

lemma minBase_loop_diverges:
  assumes "drop_bit tableLog (add * nbSymbols) = add" "add \<noteq> 0"
  shows "normalize_minBase_loop minBase add nbSymbols tableLog = None"
  using minBase_loop_Some [of minBase add nbSymbols tableLog] assms
  by (cases "normalize_minBase_loop minBase add nbSymbols tableLog") auto

text \<open>
  Claim C1 fails on the code. With the table log 5, the compressor never returns on the 33
  bytes \<open>0, ..., 0, 31\<close>: the number of symbols is 32, the table log stays 5, and with
  \<open>nbSymbols = 2^tableLog\<close> the \<^verbatim>\<open>do ... while (add)\<close> loop of \<^verbatim>\<open>FSE_normalizeCount\<close>
  keeps \<open>add = 33\<close> for ever.
\<close>

theorem FSE_compress2_diverges:
  "FSE_compress2 (replicate 32 0 @ [31]) 256 5 = None"
proof -
  let ?src = "replicate 32 0 @ [31] :: byte list"
  have cnt: "FSE_count ?src 256 = Inr (32, map (occ ?src) [0 ..< 256])"
    using FSE_count_eq [of ?src 32] by simp
  define cnt where "cnt = map (occ ?src) [0 ..< 256]"
  have tlog: "normalize_tableLog 5 33 32 = Inr 5"
    by (simp add: normalize_eval)
  have sc: "normalize_scale [cnt] 5 0 33 32 = Inr ([cnt], 33)"
    by (simp add: normalize_eval)
  have "normalize_minBase_loop (word_of_int 33) (drop_bit (nat 5) (word_of_int 33 * word_of_int 32))
           (word_of_int 32) (nat 5) = None"
    by (rule minBase_loop_diverges) simp_all
  then have mn: "normalize_minimum [cnt] 33 0 5 0 33 32 = None"
    by (simp add: normalize_minimum_def)
  have "FSE_normalizeCount [cnt] 0 5 0 33 32 = None"
    by (simp add: FSE_normalizeCount_def tlog sc mn)
  then show ?thesis
    using cnt by (simp add: FSE_compress2_def cnt_def del: upt_Suc)
qed

lemma cnt01_facts:
  "length (map (occ [0, 1]) [0 ..< 256]) = 256"
  "map (occ [0, 1]) [0 ..< 256] ! 0 = 1"
  "map (occ [0, 1]) [0 ..< 256] ! Suc 0 = 1"
  by (simp_all add: occ_code)

lemma count01: "FSE_count [0, 1] 256 = Inr (2, map (occ [0, 1]) [0 ..< 256])"
  using FSE_count_eq [of "[0, 1]" 2] by simp

lemma norm01:
  "FSE_normalizeCount [map (occ [0, 1]) [0 ..< 256]] 0 12 0 2 2 =
   Some (Inr (5, [(map (occ [0, 1]) [0 ..< 256])[0 := 16, Suc 0 := 16]]))"
proof -
  define c where "c = map (occ [0, 1]) [0 ..< 256]"
  have "length c = 256" "c ! 0 = 1" "c ! Suc 0 = 1"
    by (simp_all add: c_def occ_code)
  then have "FSE_normalizeCount [c] 0 12 0 2 2 = Some (Inr (5, [c[0 := 16, Suc 0 := 16]]))"
    by (simp add: normalize_eval upt_rec cong: let_weak_cong ebind_weak_cong)
  then show ?thesis by (simp add: c_def)
qed

lemma header01:
  assumes "2 \<le> length c" "c ! 0 = 16" "c ! Suc 0 = 16"
  shows "FSE_writeHeader c 2 5 = Some (Inr (2, [2, 252]))"
  using assms
  by (auto simp add: FSE_writeHeader_def wh_loop.simps wh_count_def wh_flush_def header_halve.simps
      store16_def Let_def FSE_MAX_TABLELOG_def FSE_MIN_TABLELOG_def FSE_MEMORY_USAGE_def
      cong: let_weak_cong)

lemma upt_lits:
  "[0 ..< 2] = [0, 1 :: nat]" "[Suc 0 ..< 2] = [1 :: nat]"
  "[0 ..< 16] = [0, 1, 2, 3, 4, 5, 6, 7 :: nat] @ [8, 9, 10, 11, 12, 13, 14, 15]"
  "[0 ..< 32] = [0, 1, 2, 3, 4, 5, 6, 7 :: nat] @ [8, 9, 10, 11, 12, 13, 14, 15] @
                [16, 17, 18, 19, 20, 21, 22, 23] @ [24, 25, 26, 27, 28, 29, 30, 31]"
  by (simp_all add: upt_rec)

lemma ctable01:
  assumes "2 \<le> length c" "c ! 0 = 16" "c ! Suc 0 = 16"
  shows "\<exists>ct. FSE_buildCTable c 2 5 = Inr ct \<and> ctTableLog ct = 5"
  using assms
  by (auto simp add: FSE_buildCTable_def FSE_spreadSymbols8_def FSE_TABLESTEP_def Let_def upt_lits
      FSE_MAX_NB_SYMBOLS_CHAR_def FSE_MAX_NB_SYMBOLS_def FSE_MAX_TABLELOG_def FSE_MEMORY_USAGE_def
      FSE_highbit_def highbit_nat.simps ebind_def
      cong: let_weak_cong ebind_weak_cong)

lemma stream01:
  assumes "ctTableLog ct = 5"
  shows "FSE_compress_usingCTable [0, 1] ct = Inr (6, [0x36, 0, 0, 0x40, 0x20, 0])"
  using assms
  by (simp add: FSE_compress_usingCTable_def FSE_compress_usingCTable_generic_def FSE_ILP_def
      compress_catchup.simps compress_loop.simps FSE_closeCompressionStream_def close_state_def
      FSE_addBits_def FSE_flushBits_def c_rem_def store16_def Let_def ebind_def upt_rec
      cong: let_weak_cong ebind_weak_cong)

lemma compress01: "FSE_compress [0, 1] = Some (Inr (3, [0, 0, 1]))"
proof -
  let ?c = "(map (occ [0, 1]) [0 ..< 256])[0 := 16, Suc 0 := 16]"
  have c: "2 \<le> length ?c" "?c ! 0 = 16" "?c ! Suc 0 = 16"
    by (simp_all add: cnt01_facts del: upt_Suc)
  from ctable01 [OF c] obtain ct where ct: "FSE_buildCTable ?c 2 5 = Inr ct" "ctTableLog ct = 5"
    by blast
  show ?thesis
    by (simp add: FSE_compress_def FSE_compress2_def FSE_MAX_NB_SYMBOLS_CHAR_def
        FSE_MAX_NB_SYMBOLS_def FSE_MAX_TABLELOG_def FSE_MEMORY_USAGE_def count01 norm01
        header01 [OF c] ct stream01 [OF ct(2)] ebind_def FSE_noCompression_def)
qed

text \<open>
  Claim C5 fails on the code. The frame of the source \<open>[0, 1]\<close> is the raw frame
  \<open>[0, 0, 1]\<close>. Truncated to \<open>k = 2\<close> bytes, \<^verbatim>\<open>FSE_decompress_safe\<close> does not return its
  error code: with the third byte still in memory it returns 3 and the two bytes of the
  source, and with a buffer of exactly two bytes it reads outside the buffer.
\<close>

theorem FSE_decompress_safe_truncated_raw_frame:
  "FSE_compress [0, 1] = Some (Inr (3, [0, 0, 1])) \<and>
   FSE_decompress_safe 2 [0, 0, 1] 2 = Some (Inr (3, [0, 1])) \<and>
   FSE_decompress_safe 2 (take 2 [0, 0, 1]) 2 = Some (Inl OutOfBounds)"
  by (simp add: compress01 FSE_decompress_safe_def FSE_decompress_generic_def FSE_decompressRaw_def)

lemma main_loop_skip:
  assumes "\<forall>s\<in>set ss. s < length c \<and> c ! s = 0" "vTotal \<noteq> 0"
  shows "normalize_main_loop step scale vStep vTotal 0 0 (ss @ rest) [c] cr =
         normalize_main_loop step scale vStep vTotal 0 0 rest [c] cr"
  using assms by (induction ss) (simp_all add: load_def)

lemma main_loop_single:
  assumes "s < length c" "c ! s = vTotal"
  shows "normalize_main_loop step scale vStep vTotal 0 0 (s # rest) [c] cr = Inr (True, [c])"
  using assms by (simp add: load_def)

text \<open>
  Claim C8. On every source of 1000 bytes that are all \<open>0x41\<close>, \<^verbatim>\<open>FSE_compress\<close> returns
  2 and writes the frame \<open>[0x01, 0x41]\<close>, and \<^verbatim>\<open>FSE_decompress\<close> of this frame for the
  original size 1000 gives the source back.
\<close>

theorem FSE_compress_single_symbol_frame:
  assumes len: "length src = 1000" and all: "\<forall>b\<in>set src. b = 0x41"
  shows "FSE_compress src = Some (Inr (2, [0x01, 0x41])) \<and>
         FSE_decompress 1000 [0x01, 0x41] = Some (Inr (2, src))"
proof -
  have src: "src = replicate 1000 0x41"
    using len all by (metis replicate_eqI)
  define c where "c = map (occ src) [0 ..< 256]"
  have cnt: "FSE_count src 256 = Inr (66, c)"
    using FSE_count_eq [of src 66] by (simp add: src c_def)
  have c_nth: "c ! s = (if s = 65 then 1000 else 0)" if "s < 256" for s
  proof -
    have "(word_of_nat s :: byte) = 0x41 \<longleftrightarrow> s = 65"
      using byte_of_nat_eq_iff [OF that, of "0x41"] by auto
    then show ?thesis
      using that by (auto simp: c_def occ_def src count_list_replicate)
  qed
  have lc: "length c = 256" by (simp add: c_def)
  have tlog: "normalize_tableLog 12 1000 66 = Inr 10"
    by (simp add: normalize_eval)
  have sc: "normalize_scale [c] 10 0 1000 66 = Inr ([c], 1000)"
    by (simp add: normalize_eval)
  have mn: "normalize_minimum [c] 1000 0 10 0 1000 66 = Some (Inr ([c], 1000))"
    by (simp add: normalize_minimum_def)
  have "normalize_main_loop step scale vStep 1000 0 0 ([0 ..< 65] @ [65]) [c] cr = Inr (True, [c])"
    for step scale vStep cr
    using c_nth lc by (subst main_loop_skip) (simp_all add: load_def)
  moreover have "[0 ..< nat 66] = [0 ..< 65] @ [65]"
    by (simp add: upt_rec)
  ultimately have w: "normalize_weights [c] 1000 0 10 0 66 = Inr (0, [c])"
    by (simp add: normalize_weights_def Let_def ebind_def del: upt_Suc)
  have norm: "FSE_normalizeCount [c] 0 12 0 1000 66 = Some (Inr (0, [c]))"
    by (simp add: FSE_normalizeCount_def tlog sc mn w)
  have "src ! 0 = 0x41" by (simp add: src)
  then have "FSE_compress src = Some (Inr (2, [0x01, 0x41]))"
    using len
    by (simp add: FSE_compress_def FSE_compress2_def FSE_MAX_NB_SYMBOLS_CHAR_def
        FSE_MAX_NB_SYMBOLS_def FSE_MAX_TABLELOG_def FSE_MEMORY_USAGE_def cnt norm
        FSE_writeSingleChar_def)
  moreover have "FSE_decompress 1000 [0x01, 0x41] = Some (Inr (2, src))"
    by (simp add: FSE_decompress_def FSE_decompress_generic_def FSE_decompressSingleSymbol_def src)
  ultimately show ?thesis by simp
qed

text \<open>Claim C8 at the source \<open>replicate 1000 0x41\<close>.\<close>

theorem FSE_compress_single_symbol_frame_witness:
  "length (replicate 1000 (0x41 :: byte)) = 1000 \<and>
   set (replicate 1000 (0x41 :: byte)) = {0x41} \<and>
   FSE_compress (replicate 1000 0x41) = Some (Inr (2, [0x01, 0x41])) \<and>
   FSE_decompress 1000 [0x01, 0x41] = Some (Inr (2, replicate 1000 0x41))"
  using FSE_compress_single_symbol_frame [of "replicate 1000 0x41"] by simp
end
